theory Spec2Isabelle
  imports Main
begin

section \<open>JavaScript values\<close>

text \<open>
  The values that flow through the program: what \<^verbatim>\<open>JSON.parse\<close> returns, what the
  schema library hands back, and what the tree viewer is given as \<^verbatim>\<open>data: any\<close>.
  Numbers are an opaque type \<open>'n\<close>: no code under study computes with a number.
  \<open>JUndefined\<close> is the JavaScript \<^verbatim>\<open>undefined\<close> (what reading a missing property
  yields); it never occurs inside a parsed JSON document.
  An object is the list of its own enumerable properties in iteration order; a
  JavaScript object has each key once, which \<open>is_json\<close> below records.
\<close>

datatype 'n jsval =
    JUndefined
  | JNull
  | JBoolean bool
  | JNumber 'n
  | JString string
  | JArray "'n jsval list"
  | JObject "(string \<times> 'n jsval) list"

datatype js_error = TypeError

text \<open>Decimal rendering of a non-negative integer (template literals, \<^verbatim>\<open>join\<close>).\<close>

definition digit_char :: "nat \<Rightarrow> char" where
  "digit_char d = char_of (48 + d)"

fun show_nat :: "nat \<Rightarrow> string" where
  "show_nat n =
     (if n < 10 then [digit_char n] else show_nat (n div 10) @ [digit_char (n mod 10)])"

declare show_nat.simps [simp del]

text \<open>\<^verbatim>\<open>typeof\<close>, \<^verbatim>\<open>Array.isArray\<close>, \<^verbatim>\<open>Object.keys\<close> and \<^verbatim>\<open>Object.entries\<close> of JavaScript.
  \<^verbatim>\<open>typeof null\<close> is \<^verbatim>\<open>"object"\<close>; \<^verbatim>\<open>Object.keys\<close> and \<^verbatim>\<open>Object.entries\<close> throw a
  TypeError on \<^verbatim>\<open>null\<close> and \<^verbatim>\<open>undefined\<close>.\<close>

fun typeof :: "'n jsval \<Rightarrow> string" where
  "typeof JUndefined = ''undefined''"
| "typeof JNull = ''object''"
| "typeof (JBoolean b) = ''boolean''"
| "typeof (JNumber n) = ''number''"
| "typeof (JString s) = ''string''"
| "typeof (JArray xs) = ''object''"
| "typeof (JObject kvs) = ''object''"

fun Array_isArray :: "'n jsval \<Rightarrow> bool" where
  "Array_isArray (JArray xs) = True"
| "Array_isArray v = False"

fun Object_entries :: "'n jsval \<Rightarrow> js_error + (string \<times> 'n jsval) list" where
  "Object_entries JUndefined = Inl TypeError"
| "Object_entries JNull = Inl TypeError"
| "Object_entries (JObject kvs) = Inr kvs"
| "Object_entries (JArray xs) = Inr (zip (map show_nat [0..<length xs]) xs)"
| "Object_entries (JString s) =
     Inr (zip (map show_nat [0..<length s]) (map (\<lambda>c. JString [c]) s))"
| "Object_entries v = Inr []"

definition Object_keys :: "'n jsval \<Rightarrow> js_error + string list" where
  "Object_keys v = (case Object_entries v of Inl e \<Rightarrow> Inl e | Inr es \<Rightarrow> Inr (map fst es))"

fun is_null :: "'n jsval \<Rightarrow> bool" where
  "is_null JNull = True"
| "is_null v = False"

fun is_undefined :: "'n jsval \<Rightarrow> bool" where
  "is_undefined JUndefined = True"
| "is_undefined v = False"

section \<open>The tree viewer (src/components/JsonViewer.tsx)\<close>

record 'n JsonNodeProps =
  name :: "string option"
  val :: "'n jsval"
  initialExpanded :: bool
  isRoot :: bool
  path :: string

text \<open>What a node renders. A \<open>Span\<close> is a styled piece of text: its class name and
  its children, literal text or a value that React prints. The two triangles of the
  header are \<open>TriangleDown\<close> (U+25BC, shown while expanded) and \<open>TriangleRight\<close>
  (U+25BA).\<close>

datatype 'n child = Lit string | Val "'n jsval"

datatype 'n span = Span string "'n child list"

datatype indicator = TriangleDown | TriangleRight

text \<open>\<open>Primitive\<close> is the first \<^verbatim>\<open>return\<close> of \<^verbatim>\<open>JsonNode\<close>: one row, the optional
  name and the value, no click handler. \<open>Collapsible\<close> is the second: a clickable header
  row (indicator, optional name, value display) and, only while expanded, the block of
  child nodes, each given by the props of the \<^verbatim>\<open>JsonNode\<close> element created for it.\<close>

datatype 'n element =
    Primitive "string option" "'n span"
  | Collapsible indicator "string option" "'n span" "'n JsonNodeProps list option"

text \<open>\<^verbatim>\<open>useState(initialExpanded || isRoot)\<close>: the state a node is mounted with.\<close>

definition useState_initial :: "'n JsonNodeProps \<Rightarrow> bool" where
  "useState_initial props = (initialExpanded props \<or> isRoot props)"

text \<open>\<^verbatim>\<open>onClick={() => setIsExpanded(!isExpanded)}\<close>: the next state after a click.\<close>

definition onClick :: "bool \<Rightarrow> bool" where
  "onClick isExpanded = (\<not> isExpanded)"

text \<open>A string is truthy unless empty; \<^verbatim>\<open>null\<close> is falsy.\<close>

fun truthy :: "string option \<Rightarrow> bool" where
  "truthy None = False"
| "truthy (Some s) = (s \<noteq> [])"

definition fullPath :: "'n JsonNodeProps \<Rightarrow> string" where
  "fullPath props =
     (case name props of
        None \<Rightarrow> path props
      | Some n \<Rightarrow>
          if truthy (Some n) then (if path props \<noteq> [] then path props @ ''.'' @ n else n)
          else path props)"

fun boolean_toString :: "'n jsval \<Rightarrow> string" where
  "boolean_toString (JBoolean True) = ''true''"
| "boolean_toString v = ''false''"

definition getValueDisplay :: "'n jsval \<Rightarrow> string \<Rightarrow> js_error + 'n span" where
  "getValueDisplay v type =
     (if is_null v then Inr (Span ''text-gray-500'' [Lit ''null''])
      else if is_undefined v then Inr (Span ''text-gray-500'' [Lit ''undefined''])
      else if type = ''string'' then Inr (Span ''text-green-600'' [Lit [CHR 0x22], Val v, Lit [CHR 0x22]])
      else if type = ''number'' then Inr (Span ''text-blue-600'' [Val v])
      else if type = ''boolean'' then Inr (Span ''text-purple-600'' [Lit (boolean_toString v)])
      else if type = ''object'' \<or> type = ''array'' then
        (case v of
           JArray xs \<Rightarrow>
             Inr (Span ''text-gray-500'' [Lit (''Array('' @ show_nat (length xs) @ '')'')])
         | _ \<Rightarrow>
             (case Object_keys v of
                Inl e \<Rightarrow> Inl e
              | Inr ks \<Rightarrow>
                  Inr (Span ''text-gray-500'' [Lit (''Object{'' @ show_nat (length ks) @ ''}'')])))
      else Inr (Span [] [Val v]))"

text \<open>The child elements of an expanded node: \<^verbatim>\<open>value.map\<close> for an array,
  \<^verbatim>\<open>Object.entries(value).map\<close> otherwise. A child gets a name, a value and a path;
  \<open>initialExpanded\<close> and \<open>isRoot\<close> take their defaults, \<^verbatim>\<open>false\<close>.\<close>

definition array_child :: "string \<Rightarrow> nat \<times> 'n jsval \<Rightarrow> 'n JsonNodeProps" where
  "array_child fp ix =
     \<lparr>name = Some (show_nat (fst ix)), val = snd ix, initialExpanded = False, isRoot = False,
      path = fp @ ''['' @ show_nat (fst ix) @ '']''\<rparr>"

definition object_child :: "string \<Rightarrow> string \<times> 'n jsval \<Rightarrow> 'n JsonNodeProps" where
  "object_child fp kv =
     \<lparr>name = Some (fst kv), val = snd kv, initialExpanded = False, isRoot = False,
      path = (if fp \<noteq> [] then fp @ ''.'' @ fst kv else fst kv)\<rparr>"

definition render_children :: "'n JsonNodeProps \<Rightarrow> js_error + 'n JsonNodeProps list" where
  "render_children props =
     (case val props of
        JArray xs \<Rightarrow> Inr (map (array_child (fullPath props)) (zip [0..<length xs] xs))
      | v \<Rightarrow>
          (case Object_entries v of
             Inl e \<Rightarrow> Inl e
           | Inr es \<Rightarrow> Inr (map (object_child (fullPath props)) es)))"

text \<open>One render of \<^verbatim>\<open>JsonNode\<close> with the given props and the current value of its
  \<open>isExpanded\<close> state. \<open>Inl TypeError\<close> is a render that throws.\<close>

definition JsonNode :: "'n JsonNodeProps \<Rightarrow> bool \<Rightarrow> js_error + 'n element" where
  "JsonNode props isExpanded =
     (let v = val props;
          type = (if Array_isArray v then ''array'' else typeof v)
      in if type \<noteq> ''object'' \<and> type \<noteq> ''array'' then
           (case getValueDisplay v type of
              Inl e \<Rightarrow> Inl e
            | Inr d \<Rightarrow> Inr (Primitive (name props) d))
         else
           (case getValueDisplay v type of
              Inl e \<Rightarrow> Inl e
            | Inr d \<Rightarrow>
                if isExpanded then
                  (case render_children props of
                     Inl e \<Rightarrow> Inl e
                   | Inr cs \<Rightarrow> Inr (Collapsible TriangleDown (name props) d (Some cs)))
                else Inr (Collapsible TriangleRight (name props) d None)))"

text \<open>\<^verbatim>\<open>JsonViewer\<close> creates the root node.\<close>

definition JsonViewer :: "'n jsval \<Rightarrow> bool \<Rightarrow> 'n JsonNodeProps" where
  "JsonViewer data initExp =
     \<lparr>name = None, val = data, initialExpanded = initExp, isRoot = True, path = []\<rparr>"

text \<open>Reading a rendered node: the child nodes it shows, and whether it has the
  click handler that toggles expansion.\<close>

fun shown_children :: "'n element \<Rightarrow> 'n JsonNodeProps list" where
  "shown_children (Primitive l d) = []"
| "shown_children (Collapsible i l d None) = []"
| "shown_children (Collapsible i l d (Some cs)) = cs"

fun has_toggle :: "'n element \<Rightarrow> bool" where
  "has_toggle (Primitive l d) = False"
| "has_toggle (Collapsible i l d cs) = True"

section \<open>The schema library\<close>

text \<open>
  Modelled from the spec: the schema-validation library (zod, imported as \<^verbatim>\<open>z\<close>) in
  which \<^verbatim>\<open>characterSchema\<close> is written is not part of the sources. The spec (4.1, 7, 8)
  fixes what the program relies on: a declarative schema is matched against a parsed JSON
  value; every violation is collected in one pass, none stops the others; each one is an
  issue with a path of keys and indices, a message and a code (\<^verbatim>\<open>invalid_type\<close>,
  \<^verbatim>\<open>too_small\<close>); a missing required field has the message \<^verbatim>\<open>Required\<close>, a value of
  the wrong type a message starting \<^verbatim>\<open>Expected\<close>. The rest follows the library's
  documented behaviour for the combinators the schema uses: \<^verbatim>\<open>z.string()\<close>,
  \<^verbatim>\<open>z.array(t)\<close> with \<^verbatim>\<open>.min(n)\<close>, \<^verbatim>\<open>z.object(shape)\<close> (which drops the keys its shape
  does not declare) with \<^verbatim>\<open>.passthrough()\<close> (which keeps them, unchecked),
  \<^verbatim>\<open>z.record(t)\<close> and \<^verbatim>\<open>.optional()\<close>. A schema is data; \<open>z_parse\<close> interprets it.
  The library's special treatment of the reserved key \<^verbatim>\<open>__proto__\<close> is not modelled.
\<close>

datatype seg = Key string | Idx nat

record ZodIssue =
  issue_code :: string
  issue_path :: "seg list"
  issue_message :: string

datatype unknownKeys = Strip | Passthrough

datatype schema =
    ZodString
  | ZodArray schema "nat option"
  | ZodObject "(string \<times> schema) list" unknownKeys
  | ZodOptional schema
  | ZodRecord schema

definition z_string :: schema where
  "z_string = ZodString"

definition z_array :: "schema \<Rightarrow> schema" where
  "z_array t = ZodArray t None"

definition z_object :: "(string \<times> schema) list \<Rightarrow> schema" where
  "z_object shape = ZodObject shape Strip"

definition z_record :: "schema \<Rightarrow> schema" where
  "z_record t = ZodRecord t"

definition optional :: "schema \<Rightarrow> schema" where
  "optional t = ZodOptional t"

text \<open>\<^verbatim>\<open>.min(n)\<close> on an array schema and \<^verbatim>\<open>.passthrough()\<close> on an object schema; the
  program calls them on nothing else.\<close>

fun z_min :: "nat \<Rightarrow> schema \<Rightarrow> schema" where
  "z_min n (ZodArray t m) = ZodArray t (Some n)"
| "z_min n t = t"

fun passthrough :: "schema \<Rightarrow> schema" where
  "passthrough (ZodObject shape u) = ZodObject shape Passthrough"
| "passthrough t = t"

text \<open>The library's name for the type of a value, used in messages.\<close>

fun getParsedType :: "'n jsval \<Rightarrow> string" where
  "getParsedType JUndefined = ''undefined''"
| "getParsedType JNull = ''null''"
| "getParsedType (JBoolean b) = ''boolean''"
| "getParsedType (JNumber n) = ''number''"
| "getParsedType (JString s) = ''string''"
| "getParsedType (JArray xs) = ''array''"
| "getParsedType (JObject kvs) = ''object''"

definition invalid_type :: "string \<Rightarrow> 'n jsval \<Rightarrow> seg list \<Rightarrow> ZodIssue" where
  "invalid_type expected v p =
     \<lparr>issue_code = ''invalid_type'', issue_path = p,
      issue_message =
        (if is_undefined v then ''Required''
         else ''Expected '' @ expected @ '', received '' @ getParsedType v)\<rparr>"

definition too_small :: "nat \<Rightarrow> seg list \<Rightarrow> ZodIssue" where
  "too_small m p =
     \<lparr>issue_code = ''too_small'', issue_path = p,
      issue_message = ''Array must contain at least '' @ show_nat m @ '' element(s)''\<rparr>"

text \<open>What parsing one value returns: a valid value, a value with a violation recorded
  against it (dirty), or no value (aborted).\<close>

datatype 'a ParseReturn = OK 'a | DIRTY 'a | INVALID

fun is_aborted :: "'a ParseReturn \<Rightarrow> bool" where
  "is_aborted INVALID = True"
| "is_aborted r = False"

fun is_dirty :: "'a ParseReturn \<Rightarrow> bool" where
  "is_dirty (DIRTY v) = True"
| "is_dirty r = False"

fun ret_value :: "'n jsval ParseReturn \<Rightarrow> 'n jsval" where
  "ret_value (OK v) = v"
| "ret_value (DIRTY v) = v"
| "ret_value INVALID = JUndefined"

definition with_status :: "bool \<Rightarrow> 'a \<Rightarrow> 'a ParseReturn" where
  "with_status dirty v = (if dirty then DIRTY v else OK v)"

definition mergeArray :: "bool \<Rightarrow> 'n jsval ParseReturn list \<Rightarrow> 'n jsval ParseReturn" where
  "mergeArray dirty rs =
     (if list_ex is_aborted rs then INVALID
      else with_status (dirty \<or> list_ex is_dirty rs) (JArray (map ret_value rs)))"

text \<open>A pair is a key, the result for its value, and whether the key was present in the
  input; a key absent from the input whose result is \<^verbatim>\<open>undefined\<close> is left out.\<close>

definition mergeObject ::
  "(string \<times> 'n jsval ParseReturn \<times> bool) list \<Rightarrow> 'n jsval ParseReturn" where
  "mergeObject pairs =
     (if list_ex (\<lambda>pr. is_aborted (fst (snd pr))) pairs then INVALID
      else with_status (list_ex (\<lambda>pr. is_dirty (fst (snd pr))) pairs)
             (JObject (map (\<lambda>pr. (fst pr, ret_value (fst (snd pr))))
                (filter (\<lambda>pr. \<not> is_undefined (ret_value (fst (snd pr))) \<or> snd (snd pr)) pairs))))"

text \<open>\<^verbatim>\<open>data[key]\<close> and \<^verbatim>\<open>key in data\<close> on an object.\<close>

definition get_prop :: "(string \<times> 'n jsval) list \<Rightarrow> string \<Rightarrow> 'n jsval" where
  "get_prop kvs k = (case map_of kvs k of None \<Rightarrow> JUndefined | Some x \<Rightarrow> x)"

definition has_key :: "(string \<times> 'n jsval) list \<Rightarrow> string \<Rightarrow> bool" where
  "has_key kvs k = (map_of kvs k \<noteq> None)"

definition extra_keys ::
  "unknownKeys \<Rightarrow> (string \<times> schema) list \<Rightarrow> (string \<times> 'n jsval) list \<Rightarrow> (string \<times> 'n jsval) list" where
  "extra_keys u shape kvs =
     (case u of
        Strip \<Rightarrow> []
      | Passthrough \<Rightarrow> filter (\<lambda>kv. fst kv \<notin> set (map fst shape)) kvs)"

fun z_parse :: "schema \<Rightarrow> seg list \<Rightarrow> 'n jsval \<Rightarrow> ZodIssue list \<times> 'n jsval ParseReturn" where
  "z_parse ZodString p v =
     (case v of
        JString s \<Rightarrow> ([], OK v)
      | _ \<Rightarrow> ([invalid_type ''string'' v p], INVALID))"
| "z_parse (ZodOptional t) p v =
     (if is_undefined v then ([], OK JUndefined) else z_parse t p v)"
| "z_parse (ZodArray t m) p v =
     (case v of
        JArray xs \<Rightarrow>
          (let own = (case m of
                        None \<Rightarrow> []
                      | Some n \<Rightarrow> if length xs < n then [too_small n p] else []);
               rs = map (\<lambda>ix. z_parse t (p @ [Idx (fst ix)]) (snd ix)) (zip [0..<length xs] xs)
           in (own @ concat (map fst rs), mergeArray (own \<noteq> []) (map snd rs)))
      | _ \<Rightarrow> ([invalid_type ''array'' v p], INVALID))"
| "z_parse (ZodObject shape u) p v =
     (case v of
        JObject kvs \<Rightarrow>
          (let rs = map (\<lambda>ks. (fst ks, z_parse (snd ks) (p @ [Key (fst ks)]) (get_prop kvs (fst ks))))
                      shape
           in (concat (map (\<lambda>r. fst (snd r)) rs),
               mergeObject
                 (map (\<lambda>r. (fst r, snd (snd r), has_key kvs (fst r))) rs @
                  map (\<lambda>kv. (fst kv, OK (snd kv), True)) (extra_keys u shape kvs))))
      | _ \<Rightarrow> ([invalid_type ''object'' v p], INVALID))"
| "z_parse (ZodRecord t) p v =
     (case v of
        JObject kvs \<Rightarrow>
          (let rs = map (\<lambda>kv. (fst kv, z_parse t (p @ [Key (fst kv)]) (snd kv))) kvs
           in (concat (map (\<lambda>r. fst (snd r)) rs),
               mergeObject (map (\<lambda>r. (fst r, snd (snd r), True)) rs)))
      | _ \<Rightarrow> ([invalid_type ''object'' v p], INVALID))"

text \<open>\<^verbatim>\<open>schema.parse(data)\<close>: the parsed value, or the thrown error with its issues.\<close>

definition parse :: "schema \<Rightarrow> 'n jsval \<Rightarrow> ZodIssue list + 'n jsval" where
  "parse t data =
     (case z_parse t [] data of
        (issues, OK v) \<Rightarrow> Inr v
      | (issues, r) \<Rightarrow> Inl issues)"

section \<open>The schema and the validation (src/lib/schema.ts)\<close>

definition characterSchema :: schema where
  "characterSchema = z_object
     [(''name'', z_string),
      (''plugins'', optional (z_array z_string)),
      (''clients'', z_min 1 (z_array z_string)),
      (''modelProvider'', z_string),
      (''settings'',
         optional (passthrough (z_object
           [(''secrets'', optional (z_record z_string)),
            (''voice'', optional (z_object [(''model'', z_string)]))]))),
      (''system'', optional z_string),
      (''bio'', z_min 1 (z_array z_string)),
      (''lore'', z_min 1 (z_array z_string)),
      (''messageExamples'',
         z_min 1 (z_array (z_min 1 (z_array (z_object
           [(''user'', z_string),
            (''content'', z_object
               [(''text'', z_string),
                (''action'', optional z_string)])]))))),
      (''postExamples'', z_min 1 (z_array z_string)),
      (''adjectives'', z_min 1 (z_array z_string)),
      (''topics'', z_min 1 (z_array z_string)),
      (''knowledge'', optional (z_array z_string)),
      (''style'', z_object
         [(''all'', z_min 1 (z_array z_string)),
          (''chat'', z_min 1 (z_array z_string)),
          (''post'', z_min 1 (z_array z_string))])]"

text \<open>\<^verbatim>\<open>err.path.join(".")\<close>: keys as they are, indices in decimal.\<close>

fun seg_string :: "seg \<Rightarrow> string" where
  "seg_string (Key k) = k"
| "seg_string (Idx i) = show_nat i"

fun join_dot :: "string list \<Rightarrow> string" where
  "join_dot [] = []"
| "join_dot [x] = x"
| "join_dot (x # y # zs) = x @ ''.'' @ join_dot (y # zs)"

text \<open>The objects \<^verbatim>\<open>{path, message, code}\<close> that \<^verbatim>\<open>formatZodError\<close> builds.\<close>

record ValidationError =
  err_path :: string
  err_message :: string
  err_code :: string

definition formatZodError :: "ZodIssue list \<Rightarrow> ValidationError list" where
  "formatZodError errors =
     map (\<lambda>err. \<lparr>err_path = join_dot (map seg_string (issue_path err)),
                 err_message = issue_message err,
                 err_code = issue_code err\<rparr>) errors"

text \<open>The inner \<^verbatim>\<open>try\<close>/\<^verbatim>\<open>catch\<close> of \<^verbatim>\<open>validateFile\<close>, the spec's Validator:
  \<open>Inr\<close> is \<^verbatim>\<open>Valid\<close>, the value handed to \<^verbatim>\<open>setCharacter\<close>; \<open>Inl\<close> is \<^verbatim>\<open>Invalid\<close>,
  the list handed to \<^verbatim>\<open>setErrors\<close>.\<close>

definition validate :: "'n jsval \<Rightarrow> ValidationError list + 'n jsval" where
  "validate json =
     (case parse characterSchema json of
        Inr validatedData \<Rightarrow> Inr validatedData
      | Inl validationError \<Rightarrow> Inl (formatZodError validationError))"

text \<open>The component state of the validator page and its \<^verbatim>\<open>validateFile\<close>. The state
  variable \<^verbatim>\<open>file\<close> is \<open>selectedFile\<close> here, and a file is its text.
  \<^verbatim>\<open>JSON.parse\<close> is a parameter: \<open>None\<close> when it throws a SyntaxError.\<close>

record 'n AppState =
  selectedFile :: "string option"
  character :: "'n jsval option"
  errors :: "ValidationError list option"
  isLoading :: bool

definition validateFile ::
  "(string \<Rightarrow> 'n jsval option) \<Rightarrow> 'n AppState \<Rightarrow> 'n AppState" where
  "validateFile JSON_parse st =
     (case selectedFile st of
        None \<Rightarrow> st
      | Some text \<Rightarrow>
          (case JSON_parse text of
             Some json \<Rightarrow>
               (case validate json of
                  Inr validatedData \<Rightarrow>
                    st\<lparr>character := Some validatedData, errors := None, isLoading := False\<rparr>
                | Inl formatted \<Rightarrow>
                    st\<lparr>character := None, errors := Some formatted, isLoading := False\<rparr>)
           | None \<Rightarrow>
               st\<lparr>character := None,
                  errors := Some [\<lparr>err_path = ''file'', err_message = ''Invalid JSON format'',
                                   err_code = ''custom''\<rparr>],
                  isLoading := False\<rparr>))"

section \<open>JSON documents, deep equality and paths\<close>

text \<open>What \<^verbatim>\<open>JSON.parse\<close> can return: no \<^verbatim>\<open>undefined\<close> anywhere, and every object with
  each key once.\<close>

fun is_json :: "'n jsval \<Rightarrow> bool" where
  "is_json JUndefined = False"
| "is_json (JArray xs) = list_all is_json xs"
| "is_json (JObject kvs) = (distinct (map fst kvs) \<and> list_all (\<lambda>kv. is_json (snd kv)) kvs)"
| "is_json v = True"

text \<open>Deep equality of two values: arrays element by element; objects when they have
  the same keys and deep-equal values under each key, whatever the order of the keys.\<close>

fun deep_eq :: "'n jsval \<Rightarrow> 'n jsval \<Rightarrow> bool" where
  "deep_eq (JArray xs) b = (case b of JArray ys \<Rightarrow> list_all2 deep_eq xs ys | _ \<Rightarrow> False)"
| "deep_eq (JObject kvs) b =
     (case b of
        JObject kws \<Rightarrow>
          set (map fst kvs) = set (map fst kws) \<and>
          list_all (\<lambda>kv. list_all (\<lambda>kw. fst kv \<noteq> fst kw \<or> deep_eq (snd kv) (snd kw)) kws) kvs
      | _ \<Rightarrow> False)"
| "deep_eq a b = (a = b)"

text \<open>Reading a property of a document: \<open>None\<close> when the value is not an object or
  has no such key.\<close>

fun field :: "'n jsval \<Rightarrow> string \<Rightarrow> 'n jsval option" where
  "field (JObject kvs) k = map_of kvs k"
| "field v k = None"

fun is_object :: "'n jsval \<Rightarrow> bool" where
  "is_object (JObject kvs) = True"
| "is_object v = False"

fun is_string :: "'n jsval \<Rightarrow> bool" where
  "is_string (JString s) = True"
| "is_string v = False"

text \<open>Reading along a path. \<open>field_at\<close> goes through nested objects by their keys (\<open>None\<close>
  when a key is absent). \<open>locate\<close> goes through objects and arrays the way \<^verbatim>\<open>data[key]\<close> and
  \<^verbatim>\<open>data[index]\<close> do: a key that the object lacks, an index outside the array and a step
  into a value of another kind end at \<^verbatim>\<open>undefined\<close>.\<close>

fun field_at :: "'n jsval \<Rightarrow> string list \<Rightarrow> 'n jsval option" where
  "field_at v [] = Some v"
| "field_at v (k # ks) = (case field v k of None \<Rightarrow> None | Some x \<Rightarrow> field_at x ks)"

fun locate :: "'n jsval \<Rightarrow> seg list \<Rightarrow> 'n jsval" where
  "locate v [] = v"
| "locate (JObject kvs) (Key k # q) = locate (get_prop kvs k) q"
| "locate (JArray xs) (Idx i # q) = (if i < length xs then locate (xs ! i) q else JUndefined)"
| "locate v (s # q) = JUndefined"

text \<open>The dotted path of the spec (7): the keys as they are and the indices in decimal,
  joined by \<^verbatim>\<open>.\<close>, written down without the program's own rendering; and the error entry
  that belongs to an issue: the dotted path of its place, its message and its code.\<close>

definition digit :: "nat \<Rightarrow> char" where
  "digit d = ''0123456789'' ! d"

fun decimal :: "nat \<Rightarrow> string" where
  "decimal n = (if n < 10 then [digit n] else decimal (n div 10) @ [digit (n mod 10)])"

declare decimal.simps [simp del]

fun path_part :: "seg \<Rightarrow> string" where
  "path_part (Key k) = k"
| "path_part (Idx i) = decimal i"

fun dotted_path :: "seg list \<Rightarrow> string" where
  "dotted_path [] = []"
| "dotted_path (s # q) = foldl (\<lambda>acc x. acc @ ''.'' @ path_part x) (path_part s) q"

definition spec_error :: "ZodIssue \<Rightarrow> ValidationError" where
  "spec_error i =
     \<lparr>err_path = dotted_path (issue_path i), err_message = issue_message i,
      err_code = issue_code i\<rparr>"

section \<open>Matching a value against a schema\<close>

text \<open>A schema is well formed when every shape names each key once (a shape is a
  JavaScript object literal).\<close>

fun wf_schema :: "schema \<Rightarrow> bool" where
  "wf_schema ZodString = True"
| "wf_schema (ZodOptional t) = wf_schema t"
| "wf_schema (ZodArray t m) = wf_schema t"
| "wf_schema (ZodObject shape u) =
     (distinct (map fst shape) \<and> list_all (\<lambda>ks. wf_schema (snd ks)) shape)"
| "wf_schema (ZodRecord t) = wf_schema t"

text \<open>\<open>conforms t v\<close>: the value \<open>v\<close> satisfies the rule that the schema \<open>t\<close> states, read
  off the schema alone: a string; an array of conforming elements, with the minimum
  length if there is one; an object whose declared properties conform (a missing one is
  \<^verbatim>\<open>undefined\<close>); a record whose values all conform; for an optional schema also
  \<^verbatim>\<open>undefined\<close>. A rule is violated when the value does not conform.\<close>

fun conforms :: "schema \<Rightarrow> 'n jsval \<Rightarrow> bool" where
  "conforms ZodString v = is_string v"
| "conforms (ZodOptional t) v = (is_undefined v \<or> conforms t v)"
| "conforms (ZodArray t m) v =
     (case v of
        JArray xs \<Rightarrow> (case m of None \<Rightarrow> True | Some n \<Rightarrow> n \<le> length xs) \<and> list_all (conforms t) xs
      | _ \<Rightarrow> False)"
| "conforms (ZodObject shape u) v =
     (case v of
        JObject kvs \<Rightarrow> list_all (\<lambda>ks. conforms (snd ks) (get_prop kvs (fst ks))) shape
      | _ \<Rightarrow> False)"
| "conforms (ZodRecord t) v =
     (case v of
        JObject kvs \<Rightarrow> list_all (\<lambda>kv. conforms t (snd kv)) kvs
      | _ \<Rightarrow> False)"

fun is_ok :: "'a ParseReturn \<Rightarrow> bool" where
  "is_ok (OK v) = True"
| "is_ok r = False"

fun shape_of :: "schema \<Rightarrow> (string \<times> schema) list" where
  "shape_of (ZodObject shape u) = shape"
| "shape_of t = []"

text \<open>\<open>prune t v\<close> removes from \<open>v\<close> the keys that the object schemas of \<open>t\<close> do not
  declare, wherever such a schema is not passthrough, and changes nothing else: the
  remaining properties keep their order and their values (pruned in turn).\<close>

function prune :: "schema \<Rightarrow> 'n jsval \<Rightarrow> 'n jsval" where
  "prune ZodString v = v"
| "prune (ZodOptional t) v = prune t v"
| "prune (ZodArray t m) v = (case v of JArray xs \<Rightarrow> JArray (map (prune t) xs) | _ \<Rightarrow> v)"
| "prune (ZodObject shape u) v =
     (case v of
        JObject kvs \<Rightarrow>
          JObject (map (\<lambda>kv. case map_of shape (fst kv) of
                                None \<Rightarrow> kv
                              | Some t \<Rightarrow> (fst kv, prune t (snd kv)))
                     (filter (\<lambda>kv. u = Passthrough \<or> map_of shape (fst kv) \<noteq> None) kvs))
      | _ \<Rightarrow> v)"
| "prune (ZodRecord t) v =
     (case v of JObject kvs \<Rightarrow> JObject (map (\<lambda>kv. (fst kv, prune t (snd kv))) kvs) | _ \<Rightarrow> v)"
  by pat_completeness auto
termination
proof -
  have shape_size: "size t < Suc (size_list (size_prod (\<lambda>x. 0) size) shape)"
    if "(k, t) \<in> set shape" for k :: string and t :: schema and shape
    using that by (induction shape) auto
  show ?thesis
    by (relation "measure (\<lambda>(t, v). size t)") (auto dest!: map_of_SomeD shape_size)
qed

text \<open>The places of a value that the rules of a schema speak about, and the rule violated
  at one place. \<open>step\<close> gives the schema of a child: of a declared key of an object, of any
  key of a record, of any index of an array; \<open>schema_at\<close> follows a whole path. \<open>reaches t v q\<close>:
  the path \<open>q\<close> leads from the value \<open>v\<close> to a place that \<open>t\<close> has a rule for. Every index
  lies within its array, every key of a record is a key that the value has, and every key
  of an object is one that the shape declares, whether the value has it or not (a missing
  required field is a place); nothing lies below a value of the wrong kind.
  \<open>own_issues t p v\<close> are the violations of the rule that \<open>t\<close> itself states about the value
  \<open>v\<close> found at the path \<open>p\<close>, the rules of its children left aside: a value of the wrong
  type (a missing one included), or a list shorter than its minimum.\<close>

fun unwrap :: "schema \<Rightarrow> schema" where
  "unwrap (ZodOptional t) = unwrap t"
| "unwrap t = t"

fun is_record :: "schema \<Rightarrow> bool" where
  "is_record (ZodRecord t) = True"
| "is_record t = False"

fun step :: "schema \<Rightarrow> seg \<Rightarrow> schema option" where
  "step (ZodOptional t) s = step t s"
| "step (ZodObject shape u) (Key k) = map_of shape k"
| "step (ZodArray t m) (Idx i) = Some t"
| "step (ZodRecord t) (Key k) = Some t"
| "step t s = None"

fun schema_at :: "schema \<Rightarrow> seg list \<Rightarrow> schema option" where
  "schema_at t [] = Some t"
| "schema_at t (s # q) = (case step t s of None \<Rightarrow> None | Some t' \<Rightarrow> schema_at t' q)"

fun reaches :: "schema \<Rightarrow> 'n jsval \<Rightarrow> seg list \<Rightarrow> bool" where
  "reaches t v [] = True"
| "reaches t (JObject kvs) (Key k # q) =
     (case step t (Key k) of
        None \<Rightarrow> False
      | Some t' \<Rightarrow> (has_key kvs k \<or> \<not> is_record (unwrap t)) \<and> reaches t' (get_prop kvs k) q)"
| "reaches t (JArray xs) (Idx i # q) =
     (case step t (Idx i) of
        None \<Rightarrow> False
      | Some t' \<Rightarrow> i < length xs \<and> reaches t' (xs ! i) q)"
| "reaches t v (s # q) = False"

fun own_issues :: "schema \<Rightarrow> seg list \<Rightarrow> 'n jsval \<Rightarrow> ZodIssue list" where
  "own_issues ZodString p v = (if is_string v then [] else [invalid_type ''string'' v p])"
| "own_issues (ZodOptional t) p v = (if is_undefined v then [] else own_issues t p v)"
| "own_issues (ZodArray t m) p v =
     (case v of
        JArray xs \<Rightarrow>
          (case m of None \<Rightarrow> [] | Some n \<Rightarrow> if length xs < n then [too_small n p] else [])
      | _ \<Rightarrow> [invalid_type ''array'' v p])"
| "own_issues (ZodObject shape u) p v =
     (if is_object v then [] else [invalid_type ''object'' v p])"
| "own_issues (ZodRecord t) p v =
     (if is_object v then [] else [invalid_type ''object'' v p])"

section \<open>The rules of the specification (4.1)\<close>

text \<open>The validation rules as the spec words them, one predicate per rule.
  \<open>required rule v k\<close>: the document has the field and the field satisfies the rule;
  \<open>if_present rule v k\<close>: the field is absent or satisfies the rule.\<close>

definition required :: "('n jsval \<Rightarrow> bool) \<Rightarrow> 'n jsval \<Rightarrow> string \<Rightarrow> bool" where
  "required rule v k = (case field v k of None \<Rightarrow> False | Some x \<Rightarrow> rule x)"

definition if_present :: "('n jsval \<Rightarrow> bool) \<Rightarrow> 'n jsval \<Rightarrow> string \<Rightarrow> bool" where
  "if_present rule v k = (case field v k of None \<Rightarrow> True | Some x \<Rightarrow> rule x)"

fun list_of :: "('n jsval \<Rightarrow> bool) \<Rightarrow> 'n jsval \<Rightarrow> bool" where
  "list_of rule (JArray xs) = list_all rule xs"
| "list_of rule v = False"

fun nonempty_list_of :: "('n jsval \<Rightarrow> bool) \<Rightarrow> 'n jsval \<Rightarrow> bool" where
  "nonempty_list_of rule (JArray xs) = (xs \<noteq> [] \<and> list_all rule xs)"
| "nonempty_list_of rule v = False"

fun string_map :: "'n jsval \<Rightarrow> bool" where
  "string_map (JObject kvs) = list_all (\<lambda>kv. is_string (snd kv)) kvs"
| "string_map v = False"

definition content_rule :: "'n jsval \<Rightarrow> bool" where
  "content_rule c = (is_object c \<and> required is_string c ''text'' \<and> if_present is_string c ''action'')"

definition turn_rule :: "'n jsval \<Rightarrow> bool" where
  "turn_rule t = (required is_string t ''user'' \<and> required content_rule t ''content'')"

definition style_rule :: "'n jsval \<Rightarrow> bool" where
  "style_rule s =
     (is_object s \<and> required (nonempty_list_of is_string) s ''all''
      \<and> required (nonempty_list_of is_string) s ''chat''
      \<and> required (nonempty_list_of is_string) s ''post'')"

definition voice_rule :: "'n jsval \<Rightarrow> bool" where
  "voice_rule v = (is_object v \<and> required is_string v ''model'')"

definition settings_rule :: "'n jsval \<Rightarrow> bool" where
  "settings_rule s =
     (is_object s \<and> if_present string_map s ''secrets'' \<and> if_present voice_rule s ''voice'')"

definition spec_rules :: "'n jsval \<Rightarrow> bool" where
  "spec_rules v =
     (required is_string v ''name''
      \<and> required is_string v ''modelProvider''
      \<and> if_present is_string v ''system''
      \<and> required (nonempty_list_of is_string) v ''clients''
      \<and> required (nonempty_list_of is_string) v ''bio''
      \<and> required (nonempty_list_of is_string) v ''lore''
      \<and> required (nonempty_list_of is_string) v ''postExamples''
      \<and> required (nonempty_list_of is_string) v ''adjectives''
      \<and> required (nonempty_list_of is_string) v ''topics''
      \<and> required (nonempty_list_of (nonempty_list_of turn_rule)) v ''messageExamples''
      \<and> required style_rule v ''style''
      \<and> if_present (list_of is_string) v ''plugins''
      \<and> if_present (list_of is_string) v ''knowledge''
      \<and> if_present settings_rule v ''settings'')"

section \<open>Concrete inputs\<close>

text \<open>The valid document of the spec's end-to-end scenario, with three places left
  open: the fields before \<^verbatim>\<open>modelProvider\<close>, the \<^verbatim>\<open>content\<close> of the one example turn, and
  the \<^verbatim>\<open>style\<close>.\<close>

definition document ::
  "(string \<times> int jsval) list \<Rightarrow> int jsval \<Rightarrow> int jsval \<Rightarrow> int jsval" where
  "document head content style = JObject (head @
     [(''modelProvider'', JString ''openai''),
      (''bio'', JArray [JString ''hi'']),
      (''lore'', JArray [JString ''l'']),
      (''messageExamples'',
         JArray [JArray [JObject [(''user'', JString ''a''), (''content'', content)]]]),
      (''postExamples'', JArray [JString ''p'']),
      (''adjectives'', JArray [JString ''kind'']),
      (''topics'', JArray [JString ''t'']),
      (''style'', style)])"

definition plain_style :: "(string \<times> int jsval) list" where
  "plain_style = [(''all'', JArray [JString ''x'']),
                  (''chat'', JArray [JString ''y'']),
                  (''post'', JArray [JString ''z''])]"

definition scenario :: "int jsval \<Rightarrow> int jsval" where
  "scenario clients =
     document [(''name'', JString ''Bot''), (''clients'', clients)]
       (JObject [(''text'', JString ''hey'')]) (JObject plain_style)"

text \<open>The scenario document with one more key inside \<^verbatim>\<open>style\<close>.\<close>

definition annotated_scenario :: "int jsval" where
  "annotated_scenario =
     document [(''name'', JString ''Bot''), (''clients'', JArray [JString ''discord''])]
       (JObject [(''text'', JString ''hey'')])
       (JObject (plain_style @ [(''note'', JString ''n'')]))"

text \<open>A turn that satisfies its rule and one whose \<^verbatim>\<open>content\<close> lacks \<^verbatim>\<open>text\<close>. A document
  that violates six rules at once: \<^verbatim>\<open>name\<close> and \<^verbatim>\<open>clients\<close> are missing, the first and the
  third entry of \<^verbatim>\<open>bio\<close> are numbers, the only turn lacks its \<^verbatim>\<open>text\<close>, and \<^verbatim>\<open>style.all\<close> is
  empty. A document whose only violation is the missing \<^verbatim>\<open>text\<close> of the thirteenth turn of
  the second example. The scenario document with an undeclared top-level key \<^verbatim>\<open>nickname\<close>
  and a \<^verbatim>\<open>settings\<close> object that carries the undeclared key \<^verbatim>\<open>model\<close> and a \<^verbatim>\<open>voice\<close> with
  the undeclared key \<^verbatim>\<open>speed\<close>, followed by what the validation returns for it.\<close>

definition good_turn :: "int jsval" where
  "good_turn = JObject [(''user'', JString ''a''), (''content'', JObject [(''text'', JString ''hey'')])]"

definition bad_turn :: "int jsval" where
  "bad_turn = JObject [(''user'', JString ''a''), (''content'', JObject [])]"


definition doc_deep_missing_text :: "int jsval" where
  "doc_deep_missing_text = JObject
     [(''name'', JString ''Bot''),
      (''clients'', JArray [JString ''discord'']),
      (''modelProvider'', JString ''openai''),
      (''bio'', JArray [JString ''hi'']),
      (''lore'', JArray [JString ''l'']),
      (''messageExamples'',
         JArray [JArray [good_turn], JArray (replicate 12 good_turn @ [bad_turn])]),
      (''postExamples'', JArray [JString ''p'']),
      (''adjectives'', JArray [JString ''kind'']),
      (''topics'', JArray [JString ''t'']),
      (''style'', JObject plain_style)]"

definition doc_voice_extra :: "int jsval" where
  "doc_voice_extra =
     document [(''name'', JString ''Bot''), (''clients'', JArray [JString ''discord'']),
               (''nickname'', JString ''B''),
               (''settings'', JObject [(''model'', JString ''gpt-4''),
                                       (''voice'', JObject [(''model'', JString ''v''),
                                                            (''speed'', JNumber 1)])])]
       (JObject [(''text'', JString ''hey'')]) (JObject plain_style)"

definition validated_voice_extra :: "int jsval" where
  "validated_voice_extra = JObject
     [(''name'', JString ''Bot''),
      (''clients'', JArray [JString ''discord'']),
      (''modelProvider'', JString ''openai''),
      (''settings'', JObject [(''voice'', JObject [(''model'', JString ''v'')]),
                              (''model'', JString ''gpt-4'')]),
      (''bio'', JArray [JString ''hi'']),
      (''lore'', JArray [JString ''l'']),
      (''messageExamples'',
         JArray [JArray [JObject [(''user'', JString ''a''),
                                  (''content'', JObject [(''text'', JString ''hey'')])]]]),
      (''postExamples'', JArray [JString ''p'']),
      (''adjectives'', JArray [JString ''kind'']),
      (''topics'', JArray [JString ''t'']),
      (''style'', JObject plain_style)]"

text \<open>A \<^verbatim>\<open>JSON.parse\<close> that knows two texts and throws on every other.\<close>

definition tiny_JSON_parse :: "string \<Rightarrow> int jsval option" where
  "tiny_JSON_parse text =
     (if text = ''null'' then Some JNull
      else if text = ''[]'' then Some (JArray [])
      else None)"

definition fresh_state :: "string \<Rightarrow> int AppState" where
  "fresh_state text =
     \<lparr>selectedFile = Some text, character = None, errors = None, isLoading = False\<rparr>"

text \<open>A node whose value is \<^verbatim>\<open>null\<close>, as the viewer creates it for the document
  \<^verbatim>\<open>{"settings": {"foo": null}}\<close> under the expanded \<^verbatim>\<open>settings\<close> node.\<close>

definition null_node :: "int JsonNodeProps" where
  "null_node =
     \<lparr>name = Some ''foo'', val = JNull, initialExpanded = False, isRoot = False,
      path = ''settings''\<rparr>"

definition clients_node :: "int JsonNodeProps" where
  "clients_node =
     \<lparr>name = Some ''clients'', val = JArray [JString ''discord'', JString ''twitter''],
      initialExpanded = False, isRoot = False, path = []\<rparr>"

section \<open>The tree viewer: expansion state and children\<close>

lemma render_children_defaults:
  "render_children props = Inr cs \<Longrightarrow> c \<in> set cs \<Longrightarrow> \<not> initialExpanded c \<and> \<not> isRoot c"
  by (auto simp: render_children_def array_child_def object_child_def
           split: jsval.splits sum.splits)

lemma JsonNode_children:
  "JsonNode props s = Inr el \<Longrightarrow> c \<in> set (shown_children el) \<Longrightarrow>
     s \<and> render_children props = Inr (shown_children el)"
  by (auto simp: JsonNode_def Let_def split: if_splits sum.splits)

text \<open>
  C5, as the claim states it, fails: the root node created with the flag \<^verbatim>\<open>false\<close> (as
  \<^verbatim>\<open>App\<close> creates it) is mounted expanded, because its state starts as
  \<^verbatim>\<open>initialExpanded || isRoot\<close> and \<^verbatim>\<open>JsonViewer\<close> passes \<^verbatim>\<open>isRoot = true\<close>.
\<close>

theorem root_ignores_flag_counterexample:
  "useState_initial (JsonViewer (scenario (JArray [JString ''discord''])) False) \<noteq> False"
  by (simp add: useState_initial_def JsonViewer_def)

text \<open>
  C5, amended: the root node starts expanded whatever the caller-supplied flag is, and
  every child node that any render of any node creates starts collapsed.
\<close>

theorem root_expanded_children_collapsed:
  "useState_initial (JsonViewer d flag) = True \<and>
   (\<forall>props s el c. JsonNode props s = Inr el \<longrightarrow> c \<in> set (shown_children el) \<longrightarrow>
        useState_initial c = False)"
  using JsonNode_children render_children_defaults
  by (fastforce simp: useState_initial_def JsonViewer_def)

theorem root_expanded_children_collapsed_witness:
  "useState_initial (JsonViewer (JArray [JNull :: int jsval]) False) = True \<and>
   (\<exists>el c. JsonNode (JsonViewer (JArray [JNull :: int jsval]) False) True = Inr el \<and>
       shown_children el = [c] \<and> useState_initial c = False)"
proof -
  let ?root = "JsonViewer (JArray [JNull :: int jsval]) False"
  let ?c = "array_child [] (0, JNull :: int jsval)"
  let ?el = "Collapsible TriangleDown None
               (Span ''text-gray-500'' [Lit (''Array('' @ show_nat (length [JNull :: int jsval]) @ '')'')])
               (Some [?c])"
  have r: "JsonNode ?root True = Inr ?el"
    by (simp add: JsonNode_def JsonViewer_def getValueDisplay_def render_children_def
          fullPath_def)
  have m: "?c \<in> set (shown_children ?el)" by simp
  from root_expanded_children_collapsed [of "JArray [JNull :: int jsval]" False] r m
  have "useState_initial ?root = True \<and> useState_initial ?c = False" by blast
  with r show ?thesis by auto
qed

text \<open>
  C6 at the value \<^verbatim>\<open>null\<close>: the node is mounted collapsed and renders as a header with
  the click handler, not as a plain row (\<^verbatim>\<open>typeof null\<close> is \<^verbatim>\<open>"object"\<close>, so the test
  for primitive values lets it through); after a click the render calls
  \<^verbatim>\<open>Object.entries(null)\<close> and throws.
\<close>

theorem null_node_is_expandable_and_throws:
  "JsonNode null_node (useState_initial null_node) =
      Inr (Collapsible TriangleRight (Some ''foo'') (Span ''text-gray-500'' [Lit ''null'']) None) \<and>
   has_toggle
      (Collapsible TriangleRight (Some ''foo'') (Span ''text-gray-500'' [Lit ''null'']) None
         :: int element) \<and>
   JsonNode null_node (onClick (useState_initial null_node)) = Inl TypeError"
  by (simp add: JsonNode_def getValueDisplay_def render_children_def null_node_def
        useState_initial_def onClick_def)

text \<open>The other scalars: a string, a number or a boolean renders as one plain row
  with no click handler and no children, in either state.\<close>

lemma scalar_renders_plain_row:
  "val props = JString s \<or> val props = JNumber n \<or> val props = JBoolean b \<Longrightarrow>
   \<exists>d. JsonNode props e = Inr (Primitive (name props) d)"
  by (auto simp: JsonNode_def getValueDisplay_def)

text \<open>
  C7: a node whose value is an array of \<open>n\<close> elements renders the header summary
  \<^verbatim>\<open>Array(n)\<close>, a node whose value is an object of \<open>n\<close> properties \<^verbatim>\<open>Object{n}\<close>. Expanded,
  it shows one child node per element (per property): for an array as many as
  \<^verbatim>\<open>value.length\<close>, with the elements as values in index order; for an object the children
  are named by \<^verbatim>\<open>Object.keys(value)\<close>, in that order, and hold the property values.
  Collapsed, it shows none.
\<close>

theorem container_header_and_children:
  "(val props = JArray xs \<longrightarrow>
      (\<exists>cs. JsonNode props True =
               Inr (Collapsible TriangleDown (name props)
                     (Span ''text-gray-500'' [Lit (''Array('' @ show_nat (length xs) @ '')'')])
                     (Some cs))
            \<and> length cs = length xs \<and> map val cs = xs)
      \<and> JsonNode props False =
               Inr (Collapsible TriangleRight (name props)
                     (Span ''text-gray-500'' [Lit (''Array('' @ show_nat (length xs) @ '')'')])
                     None))
  \<and> (val props = JObject kvs \<longrightarrow>
      (\<exists>cs. JsonNode props True =
               Inr (Collapsible TriangleDown (name props)
                     (Span ''text-gray-500'' [Lit (''Object{'' @ show_nat (length kvs) @ ''}'')])
                     (Some cs))
            \<and> Object_keys (val props) = Inr (map (\<lambda>c. the (name c)) cs)
            \<and> length cs = length kvs \<and> map val cs = map snd kvs)
      \<and> JsonNode props False =
               Inr (Collapsible TriangleRight (name props)
                     (Span ''text-gray-500'' [Lit (''Object{'' @ show_nat (length kvs) @ ''}'')])
                     None))"
  by (auto simp: JsonNode_def getValueDisplay_def render_children_def Object_keys_def
        array_child_def object_child_def o_def map_snd_zip)

theorem container_header_and_children_witness:
  "\<exists>cs. JsonNode clients_node True =
           Inr (Collapsible TriangleDown (Some ''clients'') (Span ''text-gray-500'' [Lit ''Array(2)''])
                  (Some cs))
        \<and> length cs = 2 \<and> map val cs = [JString ''discord'', JString ''twitter'']"
proof -
  have v: "val clients_node = JArray [JString ''discord'', JString ''twitter'']"
    by (simp add: clients_node_def)
  have n: "name clients_node = Some ''clients''"
    by (simp add: clients_node_def)
  have two: "show_nat (length [JString ''discord'', JString ''twitter'' :: int jsval]) = ''2''"
    by code_simp
  from container_header_and_children
         [of clients_node "[JString ''discord'', JString ''twitter'']" "[]"] v
  show ?thesis unfolding n two by (auto simp: numeral_2_eq_2)
qed

text \<open>
  C8: the click handler applied twice gives back the expansion state it started from,
  for every node and either state; the node then renders exactly as before, so it shows
  the same children.
\<close>

theorem toggle_twice_restores:
  "onClick (onClick s) = s \<and>
   JsonNode props (onClick (onClick s)) = JsonNode props s \<and>
   map_sum id (\<lambda>el. length (shown_children el)) (JsonNode props (onClick (onClick s))) =
   map_sum id (\<lambda>el. length (shown_children el)) (JsonNode props s)"
  by (simp add: onClick_def)

section \<open>Validation: malformed text and the empty client list\<close>

text \<open>
  C3: when a file is selected and \<^verbatim>\<open>JSON.parse\<close> throws on its text, \<^verbatim>\<open>validateFile\<close>
  leaves exactly one error, with path \<^verbatim>\<open>file\<close>, message \<^verbatim>\<open>Invalid JSON format\<close> and code
  \<^verbatim>\<open>custom\<close>, and no validated character.
\<close>

theorem malformed_text_single_file_error:
  assumes "selectedFile st = Some text" and "JSON_parse text = None"
  shows "errors (validateFile JSON_parse st) =
           Some [\<lparr>err_path = ''file'', err_message = ''Invalid JSON format'',
                   err_code = ''custom''\<rparr>]
       \<and> character (validateFile JSON_parse st) = None"
  using assms by (simp add: validateFile_def)

theorem malformed_text_single_file_error_witness:
  "selectedFile (fresh_state ''{ not json'') = Some ''{ not json'' \<and>
   tiny_JSON_parse ''{ not json'' = None \<and>
   errors (validateFile tiny_JSON_parse (fresh_state ''{ not json'')) =
           Some [\<lparr>err_path = ''file'', err_message = ''Invalid JSON format'',
                   err_code = ''custom''\<rparr>]
       \<and> character (validateFile tiny_JSON_parse (fresh_state ''{ not json'')) = None"
proof -
  have f: "selectedFile (fresh_state ''{ not json'') = Some ''{ not json''"
    by (simp add: fresh_state_def)
  have p: "tiny_JSON_parse ''{ not json'' = None"
    by (simp add: tiny_JSON_parse_def)
  from malformed_text_single_file_error
         [where st = "fresh_state ''{ not json''" and JSON_parse = tiny_JSON_parse, OF f p] f p
  show ?thesis by simp
qed

text \<open>
  C4: the scenario document with \<^verbatim>\<open>"clients": []\<close> is invalid with exactly one error, at
  path \<^verbatim>\<open>clients\<close>, with code \<^verbatim>\<open>too_small\<close>.
\<close>

theorem empty_clients_one_too_small_error:
  "validate (scenario (JArray [])) =
     Inl [\<lparr>err_path = ''clients'', err_message = ''Array must contain at least 1 element(s)'',
            err_code = ''too_small''\<rparr>]"
  by code_simp

section \<open>The schema library: verdict, issues and result\<close>

lemma is_ok_iff: "is_ok r \<longleftrightarrow> \<not> is_aborted r \<and> \<not> is_dirty r"
  by (cases r) auto

lemma is_ok_conv: "is_ok r \<longleftrightarrow> r = OK (ret_value r)"
  by (cases r) auto

lemma mergeArray_ok:
  "is_ok (mergeArray d rs) \<longleftrightarrow> \<not> d \<and> list_all is_ok rs"
  by (auto simp: mergeArray_def with_status_def list_ex_iff list_all_iff is_ok_iff)

lemma mergeObject_ok:
  "is_ok (mergeObject prs) \<longleftrightarrow> list_all (\<lambda>pr. is_ok (fst (snd pr))) prs"
  by (auto simp: mergeObject_def with_status_def list_ex_iff list_all_iff is_ok_iff)

lemma mergeArray_OK:
  "mergeArray d rs = OK w \<Longrightarrow> list_all is_ok rs \<and> w = JArray (map ret_value rs)"
  by (auto simp: mergeArray_def with_status_def list_ex_iff list_all_iff is_ok_iff
           split: if_splits)

lemma mergeObject_OK:
  "mergeObject prs = OK w \<Longrightarrow>
     list_all (\<lambda>pr. is_ok (fst (snd pr))) prs \<and>
     w = JObject (map (\<lambda>pr. (fst pr, ret_value (fst (snd pr))))
                   (filter (\<lambda>pr. \<not> is_undefined (ret_value (fst (snd pr))) \<or> snd (snd pr)) prs))"
  by (auto simp: mergeObject_def with_status_def list_ex_iff list_all_iff is_ok_iff
           split: if_splits)

lemma concat_eq_Nil_iff: "concat xss = [] \<longleftrightarrow> (\<forall>xs \<in> set xss. xs = [])"
  by (induction xss) auto

lemma in_zip_upt: "ix \<in> set (zip [0..<length xs] xs) \<longleftrightarrow> fst ix < length xs \<and> snd ix = xs ! fst ix"
proof (cases ix)
  case (Pair i x)
  have "(i, x) \<in> set (zip [0..<length xs] xs) \<longleftrightarrow> i < length xs \<and> x = xs ! i"
    by (auto simp: in_set_zip intro!: exI [of _ i])
  with Pair show ?thesis by simp
qed

text \<open>Parsing reports no issue and returns a valid result exactly when the value
  conforms to the schema; otherwise it reports at least one issue and the result is not
  valid.\<close>

lemma z_parse_verdict:
  "(conforms t v \<longrightarrow> fst (z_parse t p v) = [] \<and> is_ok (snd (z_parse t p v))) \<and>
   (\<not> conforms t v \<longrightarrow> fst (z_parse t p v) \<noteq> [] \<and> \<not> is_ok (snd (z_parse t p v)))"
proof (induction t arbitrary: p v)
  case ZodString
  show ?case by (cases v) auto
next
  case (ZodOptional t)
  then show ?case by (cases v) auto
next
  case (ZodArray t m)
  show ?case
  proof (cases v)
    case (JArray xs)
    let ?rs = "map (\<lambda>ix. z_parse t (p @ [Idx (fst ix)]) (snd ix)) (zip [0..<length xs] xs)"
    have good: "list_all (conforms t) xs \<Longrightarrow>
        concat (map fst ?rs) = [] \<and> list_all is_ok (map snd ?rs)"
      using ZodArray by (auto simp: list_all_iff concat_eq_Nil_iff in_zip_upt)
    have bad: "\<not> list_all (conforms t) xs \<Longrightarrow>
        concat (map fst ?rs) \<noteq> [] \<and> \<not> list_all is_ok (map snd ?rs)"
    proof -
      assume "\<not> list_all (conforms t) xs"
      then obtain i where i: "i < length xs" "\<not> conforms t (xs ! i)"
        by (auto simp: list_all_iff in_set_conv_nth)
      then have m: "(i, xs ! i) \<in> set (zip [0..<length xs] xs)"
        by (simp add: in_zip_upt)
      from i ZodArray [of "xs ! i" "p @ [Idx i]"]
      have "fst (z_parse t (p @ [Idx i]) (xs ! i)) \<noteq> []"
           "\<not> is_ok (snd (z_parse t (p @ [Idx i]) (xs ! i)))" by auto
      with m show ?thesis
        by (force simp: concat_eq_Nil_iff list_all_iff)
    qed
    show ?thesis
      using JArray good bad
      by (cases "list_all (conforms t) xs")
         (auto simp: Let_def mergeArray_ok split: option.splits)
  qed (auto)
next
  case (ZodObject shape u)
  show ?case
  proof (cases v)
    case (JObject kvs)
    let ?rs = "map (\<lambda>ks. (fst ks, z_parse (snd ks) (p @ [Key (fst ks)]) (get_prop kvs (fst ks)))) shape"
    have ih: "(conforms (snd ks) w \<longrightarrow> fst (z_parse (snd ks) q w) = [] \<and> is_ok (snd (z_parse (snd ks) q w))) \<and>
        (\<not> conforms (snd ks) w \<longrightarrow> fst (z_parse (snd ks) q w) \<noteq> [] \<and> \<not> is_ok (snd (z_parse (snd ks) q w)))"
      if "ks \<in> set shape" for ks q and w :: "'a jsval"
      using ZodObject.IH [OF that, of "snd ks"] by (cases ks) auto
    let ?c = "list_all (\<lambda>ks. conforms (snd ks) (get_prop kvs (fst ks))) shape"
    have good: "?c \<Longrightarrow> concat (map (\<lambda>r. fst (snd r)) ?rs) = [] \<and>
        list_all (\<lambda>r. is_ok (snd (snd r))) ?rs"
      using ih by (auto simp: list_all_iff concat_eq_Nil_iff)
    have bad: "\<not> ?c \<Longrightarrow> concat (map (\<lambda>r. fst (snd r)) ?rs) \<noteq> [] \<and>
        \<not> list_all (\<lambda>r. is_ok (snd (snd r))) ?rs"
    proof -
      assume "\<not> ?c"
      then obtain ks where ks: "ks \<in> set shape" "\<not> conforms (snd ks) (get_prop kvs (fst ks))"
        by (auto simp: list_all_iff)
      from ih [OF ks(1), of "get_prop kvs (fst ks)" "p @ [Key (fst ks)]"] ks(2)
      have "fst (z_parse (snd ks) (p @ [Key (fst ks)]) (get_prop kvs (fst ks))) \<noteq> []"
           "\<not> is_ok (snd (z_parse (snd ks) (p @ [Key (fst ks)]) (get_prop kvs (fst ks))))" by auto
      with ks(1) show ?thesis
        by (force simp: concat_eq_Nil_iff list_all_iff)
    qed
    have ex: "list_all (\<lambda>pr. is_ok (fst (snd pr)))
                (map (\<lambda>kv. (fst kv, OK (snd kv), True)) (extra_keys u shape kvs))"
      by (simp add: list_all_iff)
    have main: "list_all (\<lambda>pr. is_ok (fst (snd pr)))
                  (map (\<lambda>r. (fst r, snd (snd r), has_key kvs (fst r))) ?rs)
                = list_all (\<lambda>r. is_ok (snd (snd r))) ?rs"
      by (simp add: list_all_iff)
    have res: "z_parse (ZodObject shape u) p v =
        (concat (map (\<lambda>r. fst (snd r)) ?rs),
         mergeObject (map (\<lambda>r. (fst r, snd (snd r), has_key kvs (fst r))) ?rs @
                      map (\<lambda>kv. (fst kv, OK (snd kv), True)) (extra_keys u shape kvs)))"
      using JObject by (simp add: Let_def)
    have ok: "is_ok (snd (z_parse (ZodObject shape u) p v)) = list_all (\<lambda>r. is_ok (snd (snd r))) ?rs"
      unfolding res snd_conv mergeObject_ok list_all_append main using ex by simp
    have c: "conforms (ZodObject shape u) v = ?c"
      using JObject by simp
    show ?thesis
      unfolding c ok using good bad unfolding res fst_conv by blast
  qed (auto)
next
  case (ZodRecord t)
  show ?case
  proof (cases v)
    case (JObject kvs)
    let ?rs = "map (\<lambda>kv. (fst kv, z_parse t (p @ [Key (fst kv)]) (snd kv))) kvs"
    let ?c = "list_all (\<lambda>kv. conforms t (snd kv)) kvs"
    have good: "?c \<Longrightarrow> concat (map (\<lambda>r. fst (snd r)) ?rs) = [] \<and>
        list_all (\<lambda>r. is_ok (snd (snd r))) ?rs"
      using ZodRecord by (auto simp: list_all_iff concat_eq_Nil_iff)
    have bad: "\<not> ?c \<Longrightarrow> concat (map (\<lambda>r. fst (snd r)) ?rs) \<noteq> [] \<and>
        \<not> list_all (\<lambda>r. is_ok (snd (snd r))) ?rs"
    proof -
      assume "\<not> ?c"
      then obtain kv where kv: "kv \<in> set kvs" "\<not> conforms t (snd kv)"
        by (auto simp: list_all_iff)
      from ZodRecord [of "snd kv" "p @ [Key (fst kv)]"] kv(2)
      have "fst (z_parse t (p @ [Key (fst kv)]) (snd kv)) \<noteq> []"
           "\<not> is_ok (snd (z_parse t (p @ [Key (fst kv)]) (snd kv)))" by auto
      with kv(1) show ?thesis
        by (force simp: concat_eq_Nil_iff list_all_iff)
    qed
    have main: "list_all (\<lambda>pr. is_ok (fst (snd pr))) (map (\<lambda>r. (fst r, snd (snd r), True)) ?rs)
                = list_all (\<lambda>r. is_ok (snd (snd r))) ?rs"
      by (simp add: list_all_iff)
    have res: "z_parse (ZodRecord t) p v =
        (concat (map (\<lambda>r. fst (snd r)) ?rs),
         mergeObject (map (\<lambda>r. (fst r, snd (snd r), True)) ?rs))"
      using JObject by (simp add: Let_def)
    have ok: "is_ok (snd (z_parse (ZodRecord t) p v)) = list_all (\<lambda>r. is_ok (snd (snd r))) ?rs"
      unfolding res snd_conv mergeObject_ok main by simp
    have c: "conforms (ZodRecord t) v = ?c"
      using JObject by simp
    show ?thesis
      unfolding c ok using good bad unfolding res fst_conv by blast
  qed (auto)
qed

lemma get_prop_distinct:
  "distinct (map fst kvs) \<Longrightarrow> (k, x) \<in> set kvs \<Longrightarrow> get_prop kvs k = x"
  by (simp add: get_prop_def)

lemma is_json_not_undefined: "is_json v \<Longrightarrow> \<not> is_undefined v"
  by (cases v) auto

lemma is_json_get_prop:
  "is_json (JObject kvs) \<Longrightarrow> is_undefined (get_prop kvs k) \<or> is_json (get_prop kvs k)"
  by (auto simp: get_prop_def list_all_iff split: option.splits dest!: map_of_SomeD)

lemma is_undefined_eq: "is_undefined v \<longleftrightarrow> v = JUndefined"
  by (cases v) auto

lemma deep_eq_object:
  "deep_eq (JObject a) (JObject b) \<longleftrightarrow>
     fst ` set a = fst ` set b \<and>
     (\<forall>k x y. (k, x) \<in> set a \<longrightarrow> (k, y) \<in> set b \<longrightarrow> deep_eq x y)"
proof -
  have "list_all (\<lambda>kv. list_all (\<lambda>kw. fst kv \<noteq> fst kw \<or> deep_eq (snd kv) (snd kw)) b) a
        \<longleftrightarrow> (\<forall>k x y. (k, x) \<in> set a \<longrightarrow> (k, y) \<in> set b \<longrightarrow> deep_eq x y)"
    unfolding list_all_iff by force
  then show ?thesis by simp
qed

lemma deep_eq_refl: "is_json v \<Longrightarrow> deep_eq v v"
proof (induction v)
  case (JArray xs)
  then show ?case
    by (auto simp: list_all_iff list_all2_conv_all_nth)
next
  case (JObject kvs)
  have "deep_eq x y" if "(k, x) \<in> set kvs" "(k, y) \<in> set kvs" for k x y
  proof -
    from JObject.prems that have "x = y"
      by (auto dest: eq_key_imp_eq_value)
    moreover from JObject.prems that have "is_json x"
      by (auto simp: list_all_iff)
    moreover have "x \<in> Basic_BNFs.snds (k, x)" by simp
    ultimately show ?thesis using JObject.IH that(1) by blast
  qed
  then show ?case unfolding deep_eq_object by blast
qed auto

lemma prune_undefined: "prune t JUndefined = JUndefined"
  by (induction t) auto

text \<open>A valid result is deep-equal to the parsed value with its undeclared keys
  pruned.\<close>

lemma z_parse_ok_value:
  "wf_schema t \<Longrightarrow> is_undefined v \<or> is_json v \<Longrightarrow> snd (z_parse t p v) = OK w \<Longrightarrow>
     deep_eq w (prune t v) \<and> (is_undefined w \<longleftrightarrow> is_undefined v)"
proof (induction t arbitrary: p v w)
  case ZodString
  then show ?case by (cases v) auto
next
  case (ZodOptional t)
  then show ?case
    by (cases "is_undefined v") (auto simp: is_undefined_eq prune_undefined)
next
  case (ZodArray t m)
  show ?case
  proof (cases v)
    case (JArray xs)
    let ?rs = "map (\<lambda>ix. z_parse t (p @ [Idx (fst ix)]) (snd ix)) (zip [0..<length xs] xs)"
    from ZodArray.prems(3) JArray obtain d where "mergeArray d (map snd ?rs) = OK w"
      by (auto simp: Let_def)
    from mergeArray_OK [OF this]
    have ok: "list_all is_ok (map snd ?rs)" and w: "w = JArray (map ret_value (map snd ?rs))"
      by auto
    have len: "length (map ret_value (map snd ?rs)) = length xs" by simp
    have el: "deep_eq (map ret_value (map snd ?rs) ! j) (prune t (xs ! j))" if "j < length xs" for j
    proof -
      from that have m: "(j, xs ! j) \<in> set (zip [0..<length xs] xs)"
        by (simp add: in_zip_upt)
      with ok have "is_ok (snd (z_parse t (p @ [Idx j]) (xs ! j)))"
        by (force simp: list_all_iff)
      then have o: "snd (z_parse t (p @ [Idx j]) (xs ! j)) =
                    OK (ret_value (snd (z_parse t (p @ [Idx j]) (xs ! j))))"
        by (simp add: is_ok_conv)
      from ZodArray.prems(2) JArray that have "is_json (xs ! j)"
        by (auto simp: list_all_iff)
      with ZodArray.IH [OF _ _ o] ZodArray.prems(1)
      have "deep_eq (ret_value (snd (z_parse t (p @ [Idx j]) (xs ! j)))) (prune t (xs ! j))"
        by auto
      with that show ?thesis by simp
    qed
    have "list_all2 deep_eq (map ret_value (map snd ?rs)) (map (prune t) xs)"
      unfolding list_all2_conv_all_nth using el len by simp
    with w JArray show ?thesis by simp
  qed (use ZodArray.prems in auto)
next
  case (ZodObject shape u)
  show ?case
  proof (cases v)
    case (JObject kvs)
    let ?res = "\<lambda>ks. snd (z_parse (snd ks) (p @ [Key (fst ks)]) (get_prop kvs (fst ks)))"
    let ?prs = "map (\<lambda>ks. (fst ks, ?res ks, has_key kvs (fst ks))) shape @
                map (\<lambda>kv. (fst kv, OK (snd kv), True)) (extra_keys u shape kvs)"
    let ?keep = "\<lambda>pr :: string \<times> 'a jsval ParseReturn \<times> bool.
                   \<not> is_undefined (ret_value (fst (snd pr))) \<or> snd (snd pr)"
    let ?out = "map (\<lambda>pr. (fst pr, ret_value (fst (snd pr)))) (filter ?keep ?prs)"
    from ZodObject.prems(3) JObject have "mergeObject ?prs = OK w"
      by (simp add: Let_def o_def)
    from mergeObject_OK [OF this]
    have ok: "list_all (\<lambda>pr. is_ok (fst (snd pr))) ?prs" and w: "w = JObject ?out"
      by auto
    from ZodObject.prems(2) JObject have dk: "distinct (map fst kvs)"
      and jv: "\<And>k x. (k, x) \<in> set kvs \<Longrightarrow> is_json x"
      by (auto simp: list_all_iff)
    from ZodObject.prems(1) have ds: "distinct (map fst shape)"
      and ws: "\<And>ks. ks \<in> set shape \<Longrightarrow> wf_schema (snd ks)"
      by (auto simp: list_all_iff)
    have gp: "is_undefined (get_prop kvs k) \<longleftrightarrow> \<not> has_key kvs k" for k
      using jv by (auto simp: get_prop_def has_key_def is_json_not_undefined
                        split: option.splits dest!: map_of_SomeD)
    have hk: "has_key kvs k \<longleftrightarrow> k \<in> fst ` set kvs" for k
      by (simp add: has_key_def map_of_eq_None_iff)
    have child: "deep_eq (ret_value (?res ks)) (prune (snd ks) (get_prop kvs (fst ks))) \<and>
                 (is_undefined (ret_value (?res ks)) \<longleftrightarrow> \<not> has_key kvs (fst ks))"
      if "ks \<in> set shape" for ks
    proof -
      from ok that have "is_ok (?res ks)" by (force simp: list_all_iff)
      then have o: "?res ks = OK (ret_value (?res ks))" by (simp add: is_ok_conv)
      have s: "snd ks \<in> Basic_BNFs.snds ks" by (cases ks) auto
      from ZodObject.prems(2) JObject
      have j: "is_undefined (get_prop kvs (fst ks)) \<or> is_json (get_prop kvs (fst ks))"
        using is_json_get_prop by auto
      from ZodObject.IH [OF that s ws [OF that] j o] gp show ?thesis by simp
    qed
    have ex: "set (extra_keys u shape kvs) =
                (if u = Passthrough then {kv \<in> set kvs. fst kv \<notin> fst ` set shape} else {})"
      by (cases u) (auto simp: extra_keys_def)
    let ?mkA = "\<lambda>ks. (fst ks, ?res ks, has_key kvs (fst ks))"
    let ?mkB = "\<lambda>kv :: string \<times> 'a jsval. (fst kv, OK (snd kv) :: 'a jsval ParseReturn, True)"
    have "filter (\<lambda>ks. ?keep (?mkA ks)) shape = filter (\<lambda>ks. has_key kvs (fst ks)) shape"
      by (rule filter_cong) (use child in auto)
    then have fA: "filter ?keep (map ?mkA shape) =
                   map ?mkA (filter (\<lambda>ks. has_key kvs (fst ks)) shape)"
      by (simp add: filter_map o_def)
    have fB: "filter ?keep (map ?mkB (extra_keys u shape kvs)) = map ?mkB (extra_keys u shape kvs)"
      by (simp add: filter_map o_def)
    have out: "?out = map (\<lambda>ks. (fst ks, ret_value (?res ks)))
                        (filter (\<lambda>ks. has_key kvs (fst ks)) shape) @
                      extra_keys u shape kvs"
      unfolding filter_append fA fB by (simp add: o_def)
    let ?f = "\<lambda>kv :: string \<times> 'a jsval.
                case map_of shape (fst kv) of None \<Rightarrow> kv | Some t \<Rightarrow> (fst kv, prune t (snd kv))"
    let ?g = "\<lambda>kv :: string \<times> 'a jsval. u = Passthrough \<or> map_of shape (fst kv) \<noteq> None"
    have pr: "prune (ZodObject shape u) v = JObject (map ?f (filter ?g kvs))"
      using JObject by simp
    have fstf: "fst (?f kv) = fst kv" for kv
      by (simp split: option.splits)
    have g: "?g kv \<longleftrightarrow> u = Passthrough \<or> fst kv \<in> fst ` set shape" for kv
      by (simp add: map_of_eq_None_iff)
    have k1: "fst ` set ?out =
        {k \<in> fst ` set shape. k \<in> fst ` set kvs} \<union>
        (if u = Passthrough then {k \<in> fst ` set kvs. k \<notin> fst ` set shape} else {})"
    proof -
      have a: "fst ` set (map (\<lambda>ks. (fst ks, ret_value (?res ks)))
                          (filter (\<lambda>ks. has_key kvs (fst ks)) shape)) =
               {k \<in> fst ` set shape. k \<in> fst ` set kvs}"
        unfolding set_map image_image fst_conv set_filter hk by force
      have b: "fst ` set (extra_keys u shape kvs) =
               (if u = Passthrough then {k \<in> fst ` set kvs. k \<notin> fst ` set shape} else {})"
        unfolding ex by (cases "u = Passthrough") force+
      show ?thesis unfolding out set_append image_Un a b ..
    qed
    have k2: "fst ` set (map ?f (filter ?g kvs)) =
        {k \<in> fst ` set kvs. u = Passthrough \<or> k \<in> fst ` set shape}"
    proof -
      have "fst ` set (map ?f (filter ?g kvs)) = fst ` set (filter ?g kvs)"
        unfolding set_map image_image fstf ..
      also have "\<dots> = {k \<in> fst ` set kvs. u = Passthrough \<or> k \<in> fst ` set shape}"
        unfolding set_filter g by force
      finally show ?thesis .
    qed
    have keys: "fst ` set ?out = fst ` set (map ?f (filter ?g kvs))"
      unfolding k1 k2 by auto
    have vals: "deep_eq x y" if x: "(k, x) \<in> set ?out" and y: "(k, y) \<in> set (map ?f (filter ?g kvs))"
      for k x y
    proof -
      from y obtain kv where kv: "kv \<in> set kvs" "?f kv = (k, y)" by auto
      define y0 where "y0 = snd kv"
      from kv(2) fstf [of kv] have fk: "fst kv = k" by simp
      then have "kv = (k, y0)" by (simp add: y0_def prod_eq_iff)
      with kv(1) have "(k, y0) \<in> set kvs" by simp
      moreover from kv(2) fk
      have "y = (case map_of shape k of None \<Rightarrow> y0 | Some t \<Rightarrow> prune t y0)"
        by (auto simp: y0_def split: option.splits)
      ultimately have y0: "(k, y0) \<in> set kvs"
          "y = (case map_of shape k of None \<Rightarrow> y0 | Some t \<Rightarrow> prune t y0)"
        by auto
      from x [unfolded out]
      consider (declared) t where "(k, t) \<in> set shape" "x = ret_value (?res (k, t))"
        | (extra) "(k, x) \<in> set (extra_keys u shape kvs)"
        by auto
      then show ?thesis
      proof cases
        case declared
        from ds declared(1) have "map_of shape k = Some t" by simp
        with y0 have "y = prune t y0" by simp
        moreover from get_prop_distinct [OF dk y0(1)] have "get_prop kvs k = y0" .
        ultimately show ?thesis using child [OF declared(1)] declared(2) by simp
      next
        case extra
        then have m: "(k, x) \<in> set kvs" and nd: "k \<notin> fst ` set shape"
          by (auto simp: ex split: if_splits)
        from nd have "map_of shape k = None" by (simp add: map_of_eq_None_iff)
        with y0 have "y = y0" by simp
        moreover from dk m y0(1) have "x = y0" by (rule eq_key_imp_eq_value)
        ultimately show ?thesis using deep_eq_refl [OF jv [OF m]] by simp
      qed
    qed
    from keys vals have "deep_eq (JObject ?out) (JObject (map ?f (filter ?g kvs)))"
      unfolding deep_eq_object by blast
    with w pr JObject show ?thesis by simp
  qed (use ZodObject.prems in auto)
next
  case (ZodRecord t)
  show ?case
  proof (cases v)
    case (JObject kvs)
    let ?res = "\<lambda>kv. snd (z_parse t (p @ [Key (fst kv)]) (snd kv))"
    let ?prs = "map (\<lambda>kv. (fst kv, ?res kv, True)) kvs"
    let ?keep = "\<lambda>pr :: string \<times> 'a jsval ParseReturn \<times> bool.
                   \<not> is_undefined (ret_value (fst (snd pr))) \<or> snd (snd pr)"
    let ?out = "map (\<lambda>pr. (fst pr, ret_value (fst (snd pr)))) (filter ?keep ?prs)"
    from ZodRecord.prems(3) JObject have "mergeObject ?prs = OK w"
      by (simp add: Let_def o_def)
    from mergeObject_OK [OF this]
    have ok: "list_all (\<lambda>pr. is_ok (fst (snd pr))) ?prs" and w: "w = JObject ?out"
      by auto
    from ZodRecord.prems(2) JObject have dk: "distinct (map fst kvs)"
      and jv: "\<And>k x. (k, x) \<in> set kvs \<Longrightarrow> is_json x"
      by (auto simp: list_all_iff)
    have out: "?out = map (\<lambda>kv. (fst kv, ret_value (?res kv))) kvs"
      by (simp add: filter_map o_def)
    have pr: "prune (ZodRecord t) v = JObject (map (\<lambda>kv. (fst kv, prune t (snd kv))) kvs)"
      using JObject by simp
    have keys: "fst ` set ?out = fst ` set (map (\<lambda>kv. (fst kv, prune t (snd kv))) kvs)"
      unfolding out by (simp add: image_image)
    have vals: "deep_eq x y"
      if x: "(k, x) \<in> set ?out" and y: "(k, y) \<in> set (map (\<lambda>kv. (fst kv, prune t (snd kv))) kvs)"
      for k x y
    proof -
      from y obtain y0 where y0: "(k, y0) \<in> set kvs" "y = prune t y0" by auto
      from x [unfolded out] obtain x0 where x0: "(k, x0) \<in> set kvs" "x = ret_value (?res (k, x0))"
        by auto
      from dk x0(1) y0(1) have e: "x0 = y0" by (rule eq_key_imp_eq_value)
      from ok y0(1) have "is_ok (?res (k, y0))" by (force simp: list_all_iff)
      then have o: "snd (z_parse t (p @ [Key k]) y0) = OK (ret_value (?res (k, y0)))"
        by (simp add: is_ok_conv)
      from ZodRecord.IH [OF _ _ o] ZodRecord.prems(1) jv [OF y0(1)]
      show ?thesis using x0(2) y0(2) e by simp
    qed
    from keys vals
    have "deep_eq (JObject ?out) (JObject (map (\<lambda>kv. (fst kv, prune t (snd kv))) kvs))"
      unfolding deep_eq_object by blast
    with w pr JObject show ?thesis by simp
  qed (use ZodRecord.prems in auto)
qed

lemma z_parse_object_OK:
  assumes "snd (z_parse (ZodObject shape u) p (JObject kvs)) = OK w"
  shows "\<exists>okvs. w = JObject okvs
       \<and> fst ` set okvs \<subseteq> fst ` set shape \<union> fst ` set (extra_keys u shape kvs)
       \<and> set (extra_keys u shape kvs) \<subseteq> set okvs
       \<and> (\<forall>ks \<in> set shape. has_key kvs (fst ks) \<longrightarrow>
             (\<exists>x. snd (z_parse (snd ks) (p @ [Key (fst ks)]) (get_prop kvs (fst ks))) = OK x \<and>
                  (fst ks, x) \<in> set okvs))
       \<and> (distinct (map fst shape) \<and> u = Strip \<longrightarrow> distinct (map fst okvs))"
proof -
  let ?res = "\<lambda>ks. snd (z_parse (snd ks) (p @ [Key (fst ks)]) (get_prop kvs (fst ks)))"
  let ?mkA = "\<lambda>ks. (fst ks, ?res ks, has_key kvs (fst ks))"
  let ?mkB = "\<lambda>kv :: string \<times> 'a jsval. (fst kv, OK (snd kv) :: 'a jsval ParseReturn, True)"
  let ?keep = "\<lambda>pr :: string \<times> 'a jsval ParseReturn \<times> bool.
                 \<not> is_undefined (ret_value (fst (snd pr))) \<or> snd (snd pr)"
  let ?val = "\<lambda>pr :: string \<times> 'a jsval ParseReturn \<times> bool. (fst pr, ret_value (fst (snd pr)))"
  define A where "A = map ?mkA shape"
  define B where "B = map ?mkB (extra_keys u shape kvs)"
  define okvs where "okvs = map ?val (filter ?keep (A @ B))"
  from assms have "mergeObject (A @ B) = OK w"
    by (simp add: Let_def o_def A_def B_def)
  from mergeObject_OK [OF this]
  have ok: "list_all (\<lambda>pr. is_ok (fst (snd pr))) (A @ B)" and w: "w = JObject okvs"
    unfolding okvs_def by auto
  have fB: "filter ?keep B = B"
    unfolding B_def by (simp add: filter_map o_def)
  have vB: "map ?val B = extra_keys u shape kvs"
    unfolding B_def by (simp add: o_def)
  have o2: "okvs = map ?val (filter ?keep A) @ extra_keys u shape kvs"
    unfolding okvs_def filter_append map_append fB vB ..
  have kA: "map fst (map ?val (filter ?keep A)) = map fst (filter (\<lambda>ks. ?keep (?mkA ks)) shape)"
    unfolding A_def by (simp add: filter_map o_def)
  have 1: "fst ` set okvs \<subseteq> fst ` set shape \<union> fst ` set (extra_keys u shape kvs)"
  proof -
    have "fst ` set (map ?val (filter ?keep A)) \<subseteq> fst ` set shape"
      using kA by (metis (no_types, lifting) filter_is_subset image_mono list.set_map)
    then show ?thesis unfolding o2 set_append image_Un by blast
  qed
  have 2: "set (extra_keys u shape kvs) \<subseteq> set okvs"
    unfolding o2 by simp
  have 3: "\<exists>x. ?res ks = OK x \<and> (fst ks, x) \<in> set okvs"
    if "ks \<in> set shape" "has_key kvs (fst ks)" for ks
  proof -
    from that(1) have a: "?mkA ks \<in> set A" unfolding A_def by simp
    with ok have "is_ok (?res ks)" by (force simp: list_all_iff)
    then have r: "?res ks = OK (ret_value (?res ks))" by (simp add: is_ok_conv)
    from a that(2) have "?mkA ks \<in> set (filter ?keep A)" by simp
    then have "(fst ks, ret_value (?res ks)) \<in> set (map ?val (filter ?keep A))"
      unfolding set_map by (rule rev_image_eqI) simp
    then have "(fst ks, ret_value (?res ks)) \<in> set okvs" unfolding o2 by simp
    with r show ?thesis by blast
  qed
  have 4: "distinct (map fst okvs)" if "distinct (map fst shape)" "u = Strip"
  proof -
    from that(2) have "extra_keys u shape kvs = []" by (simp add: extra_keys_def)
    then have "map fst okvs = map fst (filter (\<lambda>ks. ?keep (?mkA ks)) shape)"
      unfolding o2 using kA by simp
    with that(1) show ?thesis by (simp add: distinct_map_filter)
  qed
  from w 1 2 3 4 show ?thesis by blast
qed

lemma wf_characterSchema: "wf_schema characterSchema"
  by (simp add: characterSchema_def z_object_def z_array_def z_string_def z_record_def
        optional_def)

lemma validate_Inr_iff:
  "validate v = Inr w \<longleftrightarrow> snd (z_parse characterSchema [] v) = OK w"
  by (auto simp: validate_def parse_def split: prod.splits ParseReturn.splits sum.splits)

lemma validate_Inl_iff:
  "validate v = Inl errs \<longleftrightarrow>
     \<not> is_ok (snd (z_parse characterSchema [] v)) \<and>
     errs = formatZodError (fst (z_parse characterSchema [] v))"
  by (auto simp: validate_def parse_def split: prod.splits ParseReturn.splits sum.splits)

lemma prune_object_member:
  assumes "(k, y) \<in> set (map (\<lambda>kv. case map_of shape (fst kv) of
                                None \<Rightarrow> kv
                              | Some t \<Rightarrow> (fst kv, prune t (snd kv)))
                     (filter (\<lambda>kv. u = Passthrough \<or> map_of shape (fst kv) \<noteq> None) kvs))"
  shows "\<exists>x. (k, x) \<in> set kvs \<and>
           (case map_of shape k of None \<Rightarrow> u = Passthrough \<and> y = x | Some t \<Rightarrow> y = prune t x)"
proof -
  from assms obtain kv where kv: "kv \<in> set kvs"
      "u = Passthrough \<or> map_of shape (fst kv) \<noteq> None"
      "(case map_of shape (fst kv) of None \<Rightarrow> kv | Some t \<Rightarrow> (fst kv, prune t (snd kv))) = (k, y)"
    by auto
  from kv(3) have fk: "fst kv = k" by (auto split: option.splits)
  then have e: "kv = (k, snd kv)" by (simp add: prod_eq_iff)
  with kv(1) have "(k, snd kv) \<in> set kvs" by simp
  moreover from kv(2,3) fk
  have "case map_of shape k of None \<Rightarrow> u = Passthrough \<and> y = snd kv | Some t \<Rightarrow> y = prune t (snd kv)"
    by (auto split: option.splits)
  ultimately show ?thesis by blast
qed

section \<open>The rules of the specification imply conformance\<close>

lemma conforms_required:
  "required rule (JObject kvs) k \<Longrightarrow> (\<And>x. rule x \<Longrightarrow> conforms t x) \<Longrightarrow>
     conforms t (get_prop kvs k)"
  by (auto simp: required_def get_prop_def split: option.splits)

lemma conforms_if_present:
  "if_present rule (JObject kvs) k \<Longrightarrow> (\<And>x. rule x \<Longrightarrow> conforms t x) \<Longrightarrow>
     conforms (optional t) (get_prop kvs k)"
  by (auto simp: if_present_def get_prop_def optional_def split: option.splits)

lemma conforms_string: "is_string x \<Longrightarrow> conforms z_string x"
  by (simp add: z_string_def)

lemma conforms_list_of:
  "list_of rule x \<Longrightarrow> (\<And>y. rule y \<Longrightarrow> conforms t y) \<Longrightarrow> conforms (z_array t) x"
  by (cases x) (auto simp: z_array_def list_all_iff)

lemma conforms_nonempty_list_of:
  "nonempty_list_of rule x \<Longrightarrow> (\<And>y. rule y \<Longrightarrow> conforms t y) \<Longrightarrow>
     conforms (z_min 1 (z_array t)) x"
  by (cases x) (auto simp: z_array_def list_all_iff Suc_le_eq)

lemma conforms_string_map: "string_map x \<Longrightarrow> conforms (z_record z_string) x"
  by (cases x) (auto simp: z_record_def z_string_def list_all_iff)

lemma conforms_objectI:
  "(\<And>k t. (k, t) \<in> set shape \<Longrightarrow> conforms t (get_prop kvs k)) \<Longrightarrow>
     conforms (z_object shape) (JObject kvs)"
  by (auto simp: z_object_def list_all_iff)

lemma conforms_passthroughI:
  "(\<And>k t. (k, t) \<in> set shape \<Longrightarrow> conforms t (get_prop kvs k)) \<Longrightarrow>
     conforms (passthrough (z_object shape)) (JObject kvs)"
  by (auto simp: z_object_def list_all_iff)

lemma is_object_cases: "is_object v \<Longrightarrow> \<exists>kvs. v = JObject kvs"
  by (cases v) auto

lemma required_object: "required rule v k \<Longrightarrow> \<exists>kvs. v = JObject kvs"
  by (cases v) (auto simp: required_def)

lemma req_string:
  "required is_string (JObject kvs) k \<Longrightarrow> conforms z_string (get_prop kvs k)"
  by (erule conforms_required) (erule conforms_string)

lemma opt_string:
  "if_present is_string (JObject kvs) k \<Longrightarrow> conforms (optional z_string) (get_prop kvs k)"
  by (erule conforms_if_present) (erule conforms_string)

lemma req_strings:
  "required (nonempty_list_of is_string) (JObject kvs) k \<Longrightarrow>
     conforms (z_min 1 (z_array z_string)) (get_prop kvs k)"
  by (erule conforms_required, erule conforms_nonempty_list_of, erule conforms_string)

lemma opt_strings:
  "if_present (list_of is_string) (JObject kvs) k \<Longrightarrow>
     conforms (optional (z_array z_string)) (get_prop kvs k)"
  by (erule conforms_if_present, erule conforms_list_of, erule conforms_string)

lemma conforms_content:
  assumes "content_rule c"
  shows "conforms (z_object [(''text'', z_string), (''action'', optional z_string)]) c"
proof -
  from assms obtain kvs where c: "c = JObject kvs"
    unfolding content_rule_def using is_object_cases by blast
  from assms [unfolded content_rule_def c]
  have "conforms z_string (get_prop kvs ''text'')"
       "conforms (optional z_string) (get_prop kvs ''action'')"
    by (blast intro: req_string opt_string)+
  then show ?thesis unfolding c by (auto intro!: conforms_objectI)
qed

lemma conforms_turn:
  assumes "turn_rule t"
  shows "conforms (z_object
       [(''user'', z_string),
        (''content'', z_object [(''text'', z_string), (''action'', optional z_string)])]) t"
proof -
  from assms obtain kvs where t: "t = JObject kvs"
    unfolding turn_rule_def using required_object by blast
  from assms [unfolded turn_rule_def t]
  have u: "required is_string (JObject kvs) ''user''"
    and c: "required content_rule (JObject kvs) ''content''" by auto
  from u have "conforms z_string (get_prop kvs ''user'')" by (rule req_string)
  moreover from c
  have "conforms (z_object [(''text'', z_string), (''action'', optional z_string)])
          (get_prop kvs ''content'')"
    by (rule conforms_required) (rule conforms_content)
  ultimately show ?thesis unfolding t by (auto intro!: conforms_objectI)
qed

lemma conforms_style:
  assumes "style_rule s"
  shows "conforms (z_object
       [(''all'', z_min 1 (z_array z_string)),
        (''chat'', z_min 1 (z_array z_string)),
        (''post'', z_min 1 (z_array z_string))]) s"
proof -
  from assms obtain kvs where s: "s = JObject kvs"
    unfolding style_rule_def using is_object_cases by blast
  from assms [unfolded style_rule_def s]
  have "conforms (z_min 1 (z_array z_string)) (get_prop kvs ''all'')"
       "conforms (z_min 1 (z_array z_string)) (get_prop kvs ''chat'')"
       "conforms (z_min 1 (z_array z_string)) (get_prop kvs ''post'')"
    by (blast intro: req_strings)+
  then show ?thesis unfolding s by (auto intro!: conforms_objectI)
qed

lemma conforms_voice:
  assumes "voice_rule s"
  shows "conforms (z_object [(''model'', z_string)]) s"
proof -
  from assms obtain kvs where s: "s = JObject kvs"
    unfolding voice_rule_def using is_object_cases by blast
  from assms [unfolded voice_rule_def s]
  have "conforms z_string (get_prop kvs ''model'')"
    by (blast intro: req_string)+
  then show ?thesis unfolding s by (auto intro!: conforms_objectI)
qed

lemma conforms_settings:
  assumes "settings_rule s"
  shows "conforms (passthrough (z_object
           [(''secrets'', optional (z_record z_string)),
            (''voice'', optional (z_object [(''model'', z_string)]))])) s"
proof -
  from assms obtain kvs where s: "s = JObject kvs"
    unfolding settings_rule_def using is_object_cases by blast
  from assms [unfolded settings_rule_def s]
  have a: "if_present string_map (JObject kvs) ''secrets''"
    and b: "if_present voice_rule (JObject kvs) ''voice''" by auto
  from a have "conforms (optional (z_record z_string)) (get_prop kvs ''secrets'')"
    by (rule conforms_if_present) (rule conforms_string_map)
  moreover from b
  have "conforms (optional (z_object [(''model'', z_string)])) (get_prop kvs ''voice'')"
    by (rule conforms_if_present) (rule conforms_voice)
  ultimately show ?thesis unfolding s by (auto intro!: conforms_passthroughI)
qed

lemma spec_rules_conform:
  assumes "spec_rules v"
  shows "conforms characterSchema v"
proof -
  from assms obtain kvs where v: "v = JObject kvs"
    unfolding spec_rules_def using required_object by blast
  note r = assms [unfolded spec_rules_def v]
  from r have c1: "conforms z_string (get_prop kvs ''name'')"
    and c2: "conforms z_string (get_prop kvs ''modelProvider'')"
    by (blast intro: req_string)+
  from r have c3: "conforms (optional z_string) (get_prop kvs ''system'')"
    by (blast intro: opt_string)+
  from r have c4: "conforms (z_min 1 (z_array z_string)) (get_prop kvs ''clients'')"
    and c5: "conforms (z_min 1 (z_array z_string)) (get_prop kvs ''bio'')"
    and c6: "conforms (z_min 1 (z_array z_string)) (get_prop kvs ''lore'')"
    and c7: "conforms (z_min 1 (z_array z_string)) (get_prop kvs ''postExamples'')"
    and c8: "conforms (z_min 1 (z_array z_string)) (get_prop kvs ''adjectives'')"
    and c9: "conforms (z_min 1 (z_array z_string)) (get_prop kvs ''topics'')"
    by (blast intro: req_strings)+
  from r have c10: "conforms (optional (z_array z_string)) (get_prop kvs ''plugins'')"
    and c11: "conforms (optional (z_array z_string)) (get_prop kvs ''knowledge'')"
    by (blast intro: opt_strings)+
  from r have "required (nonempty_list_of (nonempty_list_of turn_rule)) (JObject kvs) ''messageExamples''"
    by simp
  then have c12: "conforms (z_min 1 (z_array (z_min 1 (z_array (z_object
           [(''user'', z_string),
            (''content'', z_object
               [(''text'', z_string),
                (''action'', optional z_string)])]))))) (get_prop kvs ''messageExamples'')"
    by (rule conforms_required)
       (erule conforms_nonempty_list_of, erule conforms_nonempty_list_of, erule conforms_turn)
  from r have "required style_rule (JObject kvs) ''style''" by simp
  then have c13: "conforms (z_object
         [(''all'', z_min 1 (z_array z_string)),
          (''chat'', z_min 1 (z_array z_string)),
          (''post'', z_min 1 (z_array z_string))]) (get_prop kvs ''style'')"
    by (rule conforms_required) (rule conforms_style)
  from r have "if_present settings_rule (JObject kvs) ''settings''" by simp
  then have c14: "conforms (optional (passthrough (z_object
           [(''secrets'', optional (z_record z_string)),
            (''voice'', optional (z_object [(''model'', z_string)]))])))
        (get_prop kvs ''settings'')"
    by (rule conforms_if_present) (rule conforms_settings)
  show ?thesis
    unfolding characterSchema_def v
    using c1 c2 c3 c4 c5 c6 c7 c8 c9 c10 c11 c12 c13 c14
    by (auto intro!: conforms_objectI)
qed

section \<open>The schema library: every issue at its place, once\<close>

text \<open>The program's rendering of a path is the dotted path of the spec, so
  \<^verbatim>\<open>formatZodError\<close> turns every issue into the error entry that belongs to it.\<close>

lemma digit_char_digit: "d < 10 \<Longrightarrow> digit_char d = digit d"
proof -
  have "\<forall>d \<in> set [0..<10]. digit_char d = digit d" by code_simp
  moreover assume "d < 10"
  ultimately show ?thesis by simp
qed

lemma show_nat_decimal: "show_nat n = decimal n"
proof (induction n rule: show_nat.induct)
  case (1 n)
  show ?case
  proof (cases "n < 10")
    case True
    then show ?thesis
      by (simp add: show_nat.simps [of n] decimal.simps [of n] digit_char_digit)
  next
    case False
    with 1 have "show_nat (n div 10) = decimal (n div 10)" by simp
    with False show ?thesis
      by (simp add: show_nat.simps [of n] decimal.simps [of n] digit_char_digit)
  qed
qed

lemma seg_string_path_part: "seg_string s = path_part s"
  by (cases s) (simp_all add: show_nat_decimal)

lemma join_dot_Cons: "join_dot (x # ys) = x @ concat (map (\<lambda>y. ''.'' @ y) ys)"
  by (induction ys arbitrary: x) auto

lemma foldl_dots:
  "foldl (\<lambda>acc x. acc @ ''.'' @ g x) a q = a @ concat (map (\<lambda>x. ''.'' @ g x) q)"
  by (induction q arbitrary: a) auto

lemma join_dot_dotted_path: "join_dot (map seg_string q) = dotted_path q"
proof (cases q)
  case (Cons s r)
  then show ?thesis
    by (simp only: list.map join_dot_Cons dotted_path.simps foldl_dots map_map o_def
          seg_string_path_part)
qed simp

lemma formatZodError_spec: "formatZodError issues = map spec_error issues"
  by (simp add: formatZodError_def spec_error_def join_dot_dotted_path)

lemma reaches_optional: "q \<noteq> [] \<Longrightarrow> reaches (ZodOptional t) v q = reaches t v q"
proof (cases q)
  case (Cons s r)
  then show ?thesis by (cases v; cases s) (simp_all split: option.splits)
qed simp

lemma schema_at_optional: "q \<noteq> [] \<Longrightarrow> schema_at (ZodOptional t) q = schema_at t q"
  by (cases q) simp_all

text \<open>Soundness: every issue that parsing reports is the violation of the rule that the
  schema states for a place it reaches in the value, and the issue's path is the path to
  that place.\<close>

lemma has_key_member:
  "has_key kvs k \<longleftrightarrow> k \<in> fst ` set kvs"
  by (simp add: has_key_def map_of_eq_None_iff)

lemma issue_located:
  "wf_schema t \<Longrightarrow> is_undefined v \<or> is_json v \<Longrightarrow> i \<in> set (fst (z_parse t p v)) \<Longrightarrow>
     \<exists>q s. issue_path i = p @ q \<and> reaches t v q \<and> schema_at t q = Some s \<and>
           i \<in> set (own_issues s (p @ q) (locate v q))"
proof (induction t arbitrary: p v)
  case ZodString
  then have "issue_path i = p @ [] \<and> reaches ZodString v [] \<and>
             schema_at ZodString [] = Some ZodString \<and>
             i \<in> set (own_issues ZodString (p @ []) (locate v []))"
    by (cases v) (auto simp: invalid_type_def)
  then show ?case by blast
next
  case (ZodOptional t)
  from ZodOptional.prems(3) have nu: "\<not> is_undefined v" and i: "i \<in> set (fst (z_parse t p v))"
    by (auto split: if_splits)
  from ZodOptional.IH [OF _ ZodOptional.prems(2) i] ZodOptional.prems(1)
  obtain q s where q: "issue_path i = p @ q" "reaches t v q" "schema_at t q = Some s"
      "i \<in> set (own_issues s (p @ q) (locate v q))" by auto
  show ?case
  proof (cases q)
    case Nil
    with q nu have "issue_path i = p @ [] \<and> reaches (ZodOptional t) v [] \<and>
             schema_at (ZodOptional t) [] = Some (ZodOptional t) \<and>
             i \<in> set (own_issues (ZodOptional t) (p @ []) (locate v []))"
      by simp
    then show ?thesis by blast
  next
    case (Cons a r)
    then have ne: "q \<noteq> []" by simp
    from q have "issue_path i = p @ q \<and> reaches (ZodOptional t) v q \<and>
             schema_at (ZodOptional t) q = Some s \<and>
             i \<in> set (own_issues s (p @ q) (locate v q))"
      by (simp add: reaches_optional [OF ne] schema_at_optional [OF ne])
    then show ?thesis by blast
  qed
next
  case (ZodArray t m)
  show ?case
  proof (cases v)
    case (JArray xs)
    from ZodArray.prems(3) JArray
    consider (own) n where "m = Some n" "length xs < n" "i = too_small n p"
      | (el) j where "j < length xs" "i \<in> set (fst (z_parse t (p @ [Idx j]) (xs ! j)))"
      by (auto simp: Let_def in_zip_upt split: option.splits if_splits)
    then show ?thesis
    proof cases
      case own
      with JArray have "issue_path i = p @ [] \<and> reaches (ZodArray t m) v [] \<and>
             schema_at (ZodArray t m) [] = Some (ZodArray t m) \<and>
             i \<in> set (own_issues (ZodArray t m) (p @ []) (locate v []))"
        by (simp add: too_small_def)
      then show ?thesis by blast
    next
      case el
      from ZodArray.prems(2) JArray el(1) have "is_json (xs ! j)"
        by (auto simp: list_all_iff)
      with ZodArray.IH [OF _ _ el(2)] ZodArray.prems(1) obtain q s where
        q: "issue_path i = (p @ [Idx j]) @ q" "reaches t (xs ! j) q" "schema_at t q = Some s"
           "i \<in> set (own_issues s ((p @ [Idx j]) @ q) (locate (xs ! j) q))" by auto
      with el(1) JArray
      have "issue_path i = p @ (Idx j # q) \<and> reaches (ZodArray t m) v (Idx j # q) \<and>
            schema_at (ZodArray t m) (Idx j # q) = Some s \<and>
            i \<in> set (own_issues s (p @ (Idx j # q)) (locate v (Idx j # q)))"
        by simp
      then show ?thesis by blast
    qed
  next
    case JUndefined
    with ZodArray.prems(3)
    have "issue_path i = p @ [] \<and> reaches (ZodArray t m) v [] \<and>
             schema_at (ZodArray t m) [] = Some (ZodArray t m) \<and>
             i \<in> set (own_issues (ZodArray t m) (p @ []) (locate v []))"
      by (simp add: invalid_type_def)
    then show ?thesis by blast
  next
    case JNull
    with ZodArray.prems(3)
    have "issue_path i = p @ [] \<and> reaches (ZodArray t m) v [] \<and>
             schema_at (ZodArray t m) [] = Some (ZodArray t m) \<and>
             i \<in> set (own_issues (ZodArray t m) (p @ []) (locate v []))"
      by (simp add: invalid_type_def)
    then show ?thesis by blast
  next
    case (JBoolean b)
    with ZodArray.prems(3)
    have "issue_path i = p @ [] \<and> reaches (ZodArray t m) v [] \<and>
             schema_at (ZodArray t m) [] = Some (ZodArray t m) \<and>
             i \<in> set (own_issues (ZodArray t m) (p @ []) (locate v []))"
      by (simp add: invalid_type_def)
    then show ?thesis by blast
  next
    case (JNumber n)
    with ZodArray.prems(3)
    have "issue_path i = p @ [] \<and> reaches (ZodArray t m) v [] \<and>
             schema_at (ZodArray t m) [] = Some (ZodArray t m) \<and>
             i \<in> set (own_issues (ZodArray t m) (p @ []) (locate v []))"
      by (simp add: invalid_type_def)
    then show ?thesis by blast
  next
    case (JString s)
    with ZodArray.prems(3)
    have "issue_path i = p @ [] \<and> reaches (ZodArray t m) v [] \<and>
             schema_at (ZodArray t m) [] = Some (ZodArray t m) \<and>
             i \<in> set (own_issues (ZodArray t m) (p @ []) (locate v []))"
      by (simp add: invalid_type_def)
    then show ?thesis by blast
  next
    case (JObject kvs)
    with ZodArray.prems(3)
    have "issue_path i = p @ [] \<and> reaches (ZodArray t m) v [] \<and>
             schema_at (ZodArray t m) [] = Some (ZodArray t m) \<and>
             i \<in> set (own_issues (ZodArray t m) (p @ []) (locate v []))"
      by (simp add: invalid_type_def)
    then show ?thesis by blast
  qed
next
  case (ZodObject shape u)
  show ?case
  proof (cases "is_object v")
    case False
    with ZodObject.prems(3)
    have "issue_path i = p @ [] \<and> reaches (ZodObject shape u) v [] \<and>
             schema_at (ZodObject shape u) [] = Some (ZodObject shape u) \<and>
             i \<in> set (own_issues (ZodObject shape u) (p @ []) (locate v []))"
      by (cases v) (simp_all add: invalid_type_def)
    then show ?thesis by blast
  next
    case True
    then obtain kvs where JObject: "v = JObject kvs" by (cases v) simp_all
    from ZodObject.prems(3) JObject obtain ks where
      ks: "ks \<in> set shape"
          "i \<in> set (fst (z_parse (snd ks) (p @ [Key (fst ks)]) (get_prop kvs (fst ks))))"
      by (auto simp: Let_def)
    have s: "snd ks \<in> Basic_BNFs.snds ks" by (cases ks) auto
    from ZodObject.prems(2) JObject
    have j: "is_undefined (get_prop kvs (fst ks)) \<or> is_json (get_prop kvs (fst ks))"
      using is_json_get_prop by auto
    from ZodObject.prems(1) ks(1) have w: "wf_schema (snd ks)" and d: "distinct (map fst shape)"
      by (auto simp: list_all_iff)
    from d ks(1) have mo: "map_of shape (fst ks) = Some (snd ks)" by simp
    from ZodObject.IH [OF ks(1) s w j ks(2)] obtain q s' where
      q: "issue_path i = (p @ [Key (fst ks)]) @ q" "reaches (snd ks) (get_prop kvs (fst ks)) q"
         "schema_at (snd ks) q = Some s'"
         "i \<in> set (own_issues s' ((p @ [Key (fst ks)]) @ q) (locate (get_prop kvs (fst ks)) q))"
      by blast
    with JObject mo
    have "issue_path i = p @ (Key (fst ks) # q) \<and>
          reaches (ZodObject shape u) v (Key (fst ks) # q) \<and>
          schema_at (ZodObject shape u) (Key (fst ks) # q) = Some s' \<and>
          i \<in> set (own_issues s' (p @ (Key (fst ks) # q)) (locate v (Key (fst ks) # q)))"
      by simp
    then show ?thesis by blast
  qed
next
  case (ZodRecord t)
  show ?case
  proof (cases "is_object v")
    case False
    with ZodRecord.prems(3)
    have "issue_path i = p @ [] \<and> reaches (ZodRecord t) v [] \<and>
             schema_at (ZodRecord t) [] = Some (ZodRecord t) \<and>
             i \<in> set (own_issues (ZodRecord t) (p @ []) (locate v []))"
      by (cases v) (simp_all add: invalid_type_def)
    then show ?thesis by blast
  next
    case True
    then obtain kvs where JObject: "v = JObject kvs" by (cases v) simp_all
    from ZodRecord.prems(3) JObject obtain kv where
      kv: "kv \<in> set kvs" "i \<in> set (fst (z_parse t (p @ [Key (fst kv)]) (snd kv)))"
      by (auto simp: Let_def)
    from ZodRecord.prems(2) JObject kv(1)
    have j: "is_json (snd kv)" and g: "get_prop kvs (fst kv) = snd kv"
      by (auto simp: list_all_iff intro!: get_prop_distinct)
    from kv(1) have h: "has_key kvs (fst kv)" by (force simp: has_key_member)
    from ZodRecord.IH [OF _ _ kv(2)] j ZodRecord.prems(1) obtain q s' where
      q: "issue_path i = (p @ [Key (fst kv)]) @ q" "reaches t (snd kv) q"
         "schema_at t q = Some s'"
         "i \<in> set (own_issues s' ((p @ [Key (fst kv)]) @ q) (locate (snd kv) q))"
      by auto
    with JObject g h
    have "issue_path i = p @ (Key (fst kv) # q) \<and>
          reaches (ZodRecord t) v (Key (fst kv) # q) \<and>
          schema_at (ZodRecord t) (Key (fst kv) # q) = Some s' \<and>
          i \<in> set (own_issues s' (p @ (Key (fst kv) # q)) (locate v (Key (fst kv) # q)))"
      by simp
    then show ?thesis by blast
  qed
qed







text \<open>Every property of a valid object result is an undeclared property that was kept,
  or the valid result of a declared key.\<close>

lemma z_parse_object_origin:
  assumes "snd (z_parse (ZodObject shape u) p (JObject kvs)) = OK (JObject okvs)"
    and "(k, x) \<in> set okvs"
  shows "(k, x) \<in> set (extra_keys u shape kvs) \<or>
         (\<exists>ks \<in> set shape. fst ks = k \<and>
            snd (z_parse (snd ks) (p @ [Key k]) (get_prop kvs k)) = OK x)"
proof -
  let ?res = "\<lambda>ks. snd (z_parse (snd ks) (p @ [Key (fst ks)]) (get_prop kvs (fst ks)))"
  let ?mkA = "\<lambda>ks. (fst ks, ?res ks, has_key kvs (fst ks))"
  let ?mkB = "\<lambda>kv :: string \<times> 'a jsval. (fst kv, OK (snd kv) :: 'a jsval ParseReturn, True)"
  let ?keep = "\<lambda>pr :: string \<times> 'a jsval ParseReturn \<times> bool.
                 \<not> is_undefined (ret_value (fst (snd pr))) \<or> snd (snd pr)"
  let ?val = "\<lambda>pr :: string \<times> 'a jsval ParseReturn \<times> bool. (fst pr, ret_value (fst (snd pr)))"
  define A where "A = map ?mkA shape"
  define B where "B = map ?mkB (extra_keys u shape kvs)"
  from assms(1) have "mergeObject (A @ B) = OK (JObject okvs)"
    by (simp add: Let_def o_def A_def B_def)
  from mergeObject_OK [OF this]
  have ok: "list_all (\<lambda>pr. is_ok (fst (snd pr))) (A @ B)"
    and w: "okvs = map ?val (filter ?keep (A @ B))"
    by auto
  have fB: "filter ?keep B = B"
    unfolding B_def by (simp add: filter_map o_def)
  have vB: "map ?val B = extra_keys u shape kvs"
    unfolding B_def by (simp add: o_def)
  have o2: "okvs = map ?val (filter ?keep A) @ extra_keys u shape kvs"
    unfolding w filter_append map_append fB vB ..
  from assms(2) [unfolded o2]
  consider (declared) "(k, x) \<in> set (map ?val (filter ?keep A))"
    | (extra) "(k, x) \<in> set (extra_keys u shape kvs)"
    by auto
  then show ?thesis
  proof cases
    case declared
    then obtain pr where pr: "pr \<in> set A" "?val pr = (k, x)" by auto
    then obtain ks where ks: "ks \<in> set shape" "pr = ?mkA ks" unfolding A_def by auto
    from ok pr(1) have "is_ok (fst (snd pr))" by (simp add: list_all_iff)
    with ks(2) have "?res ks = OK (ret_value (?res ks))" by (simp add: is_ok_conv)
    moreover from pr(2) ks(2) have "fst ks = k" "ret_value (?res ks) = x" by auto
    ultimately have "fst ks = k \<and> snd (z_parse (snd ks) (p @ [Key k]) (get_prop kvs k)) = OK x"
      by simp
    with ks(1) show ?thesis by blast
  next
    case extra
    then show ?thesis by blast
  qed
qed

section \<open>Validation: accepted documents\<close>

text \<open>
  C1, as the claim states it, fails. The document below satisfies every rule of 4.1 and
  is valid, but its \<^verbatim>\<open>style\<close> carries the key \<^verbatim>\<open>note\<close>, which the schema of \<^verbatim>\<open>style\<close> does
  not declare: the validated object is the plain scenario document, whose \<^verbatim>\<open>style\<close> lacks
  that key, so the returned \<^verbatim>\<open>style\<close> is not deep-equal to the input's.
\<close>

theorem undeclared_style_key_dropped_counterexample:
  "is_json annotated_scenario \<and> spec_rules annotated_scenario \<and>
   validate annotated_scenario = Inr (scenario (JArray [JString ''discord''])) \<and>
   field annotated_scenario ''style'' = Some (JObject (plain_style @ [(''note'', JString ''n'')])) \<and>
   field (scenario (JArray [JString ''discord''])) ''style'' = Some (JObject plain_style) \<and>
   \<not> deep_eq (JObject plain_style) (JObject (plain_style @ [(''note'', JString ''n'')]))"
  by code_simp

text \<open>
  C1, amended: for every JSON value that satisfies all the rules of 4.1 the Validator
  returns Valid, and the returned object is deep-equal to the input once the keys that
  the schema does not declare are removed from it (at the top level and inside \<^verbatim>\<open>style\<close>,
  \<^verbatim>\<open>settings.voice\<close>, every turn and every turn's \<^verbatim>\<open>content\<close>; \<^verbatim>\<open>settings\<close> itself keeps
  its undeclared keys). Field by field: every field of the returned object is a declared
  field that the input has, and is deep-equal to that input field pruned in this way.
\<close>

theorem valid_document_accepted_fields_pruned:
  assumes "is_json v" and "spec_rules v"
  shows "\<exists>out. validate v = Inr out \<and> deep_eq out (prune characterSchema v) \<and>
           (\<forall>k w. field out k = Some w \<longrightarrow>
              (\<exists>t x. map_of (shape_of characterSchema) k = Some t \<and> field v k = Some x \<and>
                     deep_eq w (prune t x)))"
proof -
  define shape where "shape = shape_of characterSchema"
  have cs: "characterSchema = ZodObject shape Strip"
    unfolding shape_def by (simp add: characterSchema_def z_object_def)
  from assms(2) have c: "conforms characterSchema v" by (rule spec_rules_conform)
  with z_parse_verdict [of characterSchema v "[]"]
  have "is_ok (snd (z_parse characterSchema [] v))" by simp
  then obtain out where o: "snd (z_parse characterSchema [] v) = OK out"
    by (cases "snd (z_parse characterSchema [] v)") simp_all
  then have v: "validate v = Inr out" by (simp add: validate_Inr_iff)
  from z_parse_ok_value [OF wf_characterSchema _ o] assms(1)
  have d: "deep_eq out (prune characterSchema v)" by simp
  from c [unfolded cs] obtain kvs where kvs: "v = JObject kvs"
    by (cases v) simp_all
  define pruned where "pruned =
     map (\<lambda>kv. case map_of shape (fst kv) of
                  None \<Rightarrow> kv
                | Some t \<Rightarrow> (fst kv, prune t (snd kv)))
         (filter (\<lambda>kv. Strip = Passthrough \<or> map_of shape (fst kv) \<noteq> None) kvs)"
  have p: "prune characterSchema v = JObject pruned"
    unfolding cs kvs pruned_def by simp
  have "\<exists>okvs. out = JObject okvs"
  proof (cases out)
    case (JObject okvs)
    then show ?thesis by blast
  qed (use d [unfolded p] in simp_all)
  then obtain okvs where okvs: "out = JObject okvs" ..
  from assms(1) kvs have dk: "distinct (map fst kvs)" by simp
  note dd = d [unfolded p okvs deep_eq_object]
  from dd have ks: "fst ` set okvs = fst ` set pruned" by (rule conjunct1)
  from dd have vs: "\<forall>k x y. (k, x) \<in> set okvs \<longrightarrow> (k, y) \<in> set pruned \<longrightarrow> deep_eq x y"
    by (rule conjunct2)
  have "\<exists>t x. map_of shape k = Some t \<and> field v k = Some x \<and> deep_eq w (prune t x)"
    if "field out k = Some w" for k w
  proof -
    from that okvs have m: "(k, w) \<in> set okvs" by (auto dest: map_of_SomeD)
    then have "k \<in> fst ` set okvs" by force
    then have "k \<in> fst ` set pruned" by (simp only: ks)
    then obtain y where y: "(k, y) \<in> set pruned" by force
    from prune_object_member [OF y [unfolded pruned_def]] obtain x where x: "(k, x) \<in> set kvs"
      "case map_of shape k of None \<Rightarrow> Strip = Passthrough \<and> y = x | Some t \<Rightarrow> y = prune t x"
      by blast
    then obtain t where t: "map_of shape k = Some t" "y = prune t x"
      by (cases "map_of shape k") auto
    from dk x(1) have "field v k = Some x" by (simp add: kvs)
    with t vs m y show ?thesis by blast
  qed
  with v d show ?thesis unfolding shape_def by blast
qed

theorem valid_document_accepted_fields_pruned_witness:
  "is_json (scenario (JArray [JString ''discord''])) \<and>
   spec_rules (scenario (JArray [JString ''discord''])) \<and>
   (\<exists>out. validate (scenario (JArray [JString ''discord''])) = Inr out \<and>
          deep_eq out (prune characterSchema (scenario (JArray [JString ''discord'']))))"
proof -
  have j: "is_json (scenario (JArray [JString ''discord'']))" by code_simp
  have r: "spec_rules (scenario (JArray [JString ''discord'']))" by code_simp
  from valid_document_accepted_fields_pruned [OF j r] j r show ?thesis by blast
qed

text \<open>
  C10, as the claim states it, fails. The document below is accepted. Its \<^verbatim>\<open>settings\<close>
  holds a \<^verbatim>\<open>voice\<close> object with the key \<^verbatim>\<open>speed\<close>, an unknown key nested inside
  \<^verbatim>\<open>settings\<close>; the returned \<^verbatim>\<open>settings.voice\<close> has the key \<^verbatim>\<open>model\<close> only. Of the objects of
  the schema only \<^verbatim>\<open>settings\<close> itself is \<^verbatim>\<open>.passthrough()\<close>; the \<^verbatim>\<open>voice\<close> object inside it
  drops the keys that its shape does not declare.
\<close>

theorem voice_undeclared_key_dropped_counterexample:
  "validate doc_voice_extra = Inr validated_voice_extra \<and>
   field_at doc_voice_extra [''settings'', ''voice'', ''speed''] = Some (JNumber 1) \<and>
   field_at validated_voice_extra [''settings'', ''voice''] =
     Some (JObject [(''model'', JString ''v'')]) \<and>
   field_at validated_voice_extra [''settings'', ''voice'', ''speed''] = None"
  by code_simp

text \<open>
  C10, amended: when the validator accepts an input, the input and the returned value are
  objects, every key of the returned object is a top-level key that the schema declares
  (a key of the input that the schema does not declare is absent from the output), every
  property of the input's \<^verbatim>\<open>settings\<close> object other than \<^verbatim>\<open>secrets\<close>, \<^verbatim>\<open>voice\<close> and the reserved
  key \<^verbatim>\<open>__proto__\<close> is a property of the returned \<^verbatim>\<open>settings\<close> object, with the same value,
  and the returned \<^verbatim>\<open>settings.voice\<close>, when it is an object, has no key other than \<^verbatim>\<open>model\<close>.
\<close>

theorem undeclared_keys_stripped_settings_own_keys_kept:
  assumes "validate v = Inr out"
  shows "\<exists>kvs okvs. v = JObject kvs \<and> out = JObject okvs \<and>
           fst ` set okvs \<subseteq> fst ` set (shape_of characterSchema) \<and>
           (\<forall>skvs. field v ''settings'' = Some (JObject skvs) \<longrightarrow>
              (\<exists>oskvs. field out ''settings'' = Some (JObject oskvs) \<and>
                 (\<forall>kv \<in> set skvs. fst kv \<notin> {''secrets'', ''voice'', ''__proto__''} \<longrightarrow>
                      kv \<in> set oskvs) \<and>
                 (\<forall>ovkvs. field (JObject oskvs) ''voice'' = Some (JObject ovkvs) \<longrightarrow>
                      fst ` set ovkvs \<subseteq> {''model''})))"
proof -
  define shape where "shape = shape_of characterSchema"
  have cs: "characterSchema = ZodObject shape Strip"
    unfolding shape_def by (simp add: characterSchema_def z_object_def)
  from assms have o: "snd (z_parse (ZodObject shape Strip) [] v) = OK out"
    by (simp add: validate_Inr_iff cs)
  have "\<exists>kvs. v = JObject kvs"
  proof (cases v)
    case (JObject kvs)
    then show ?thesis by blast
  qed (use o in simp_all)
  then obtain kvs where kvs: "v = JObject kvs" ..
  from wf_characterSchema [unfolded cs] have ds: "distinct (map fst shape)" by simp
  from z_parse_object_OK [OF o [unfolded kvs]] obtain okvs where okvs: "out = JObject okvs"
    and k: "fst ` set okvs \<subseteq> fst ` set shape \<union> fst ` set (extra_keys Strip shape kvs)"
    and d: "\<forall>ks \<in> set shape. has_key kvs (fst ks) \<longrightarrow>
             (\<exists>x. snd (z_parse (snd ks) ([] @ [Key (fst ks)]) (get_prop kvs (fst ks))) = OK x \<and>
                  (fst ks, x) \<in> set okvs)"
    and dist: "distinct (map fst shape) \<and> Strip = Strip \<longrightarrow> distinct (map fst okvs)"
    by blast
  from k have keys: "fst ` set okvs \<subseteq> fst ` set shape"
    by (simp add: extra_keys_def)
  from dist ds have dok: "distinct (map fst okvs)" by simp
  define vshape where "vshape = [(''model'', z_string)]"
  define sshape where "sshape =
     [(''secrets'', optional (z_record z_string)),
      (''voice'', ZodOptional (ZodObject vshape Strip))]"
  have ms: "(''settings'', ZodOptional (ZodObject sshape Passthrough)) \<in> set shape"
    unfolding shape_def sshape_def vshape_def
    by (simp add: characterSchema_def z_object_def optional_def)
  have "\<exists>oskvs. field out ''settings'' = Some (JObject oskvs) \<and>
          (\<forall>kv \<in> set skvs. fst kv \<notin> {''secrets'', ''voice'', ''__proto__''} \<longrightarrow>
               kv \<in> set oskvs) \<and>
          (\<forall>ovkvs. field (JObject oskvs) ''voice'' = Some (JObject ovkvs) \<longrightarrow>
               fst ` set ovkvs \<subseteq> {''model''})"
    if "field v ''settings'' = Some (JObject skvs)" for skvs
  proof -
    from that kvs have m: "map_of kvs ''settings'' = Some (JObject skvs)" by simp
    then have g: "get_prop kvs ''settings'' = JObject skvs" and h: "has_key kvs ''settings''"
      by (simp_all add: get_prop_def has_key_def)
    from d [rule_format, OF ms] h g obtain x where
      x: "snd (z_parse (ZodOptional (ZodObject sshape Passthrough)) ([] @ [Key ''settings''])
                (JObject skvs)) = OK x"
      and xm: "(''settings'', x) \<in> set okvs" by auto
    from x have so: "snd (z_parse (ZodObject sshape Passthrough) ([] @ [Key ''settings''])
                (JObject skvs)) = OK x" by simp
    from z_parse_object_OK [OF this] obtain oskvs where oskvs: "x = JObject oskvs"
      and ex: "set (extra_keys Passthrough sshape skvs) \<subseteq> set oskvs" by blast
    from dok xm have "map_of okvs ''settings'' = Some x" by simp
    then have f: "field out ''settings'' = Some (JObject oskvs)"
      by (simp add: okvs oskvs)
    have p: "kv \<in> set oskvs"
      if "kv \<in> set skvs" "fst kv \<notin> {''secrets'', ''voice'', ''__proto__''}" for kv
    proof -
      from that have "kv \<in> set (extra_keys Passthrough sshape skvs)"
        by (simp add: extra_keys_def sshape_def)
      with ex show ?thesis by blast
    qed
    have vo: "fst ` set ovkvs \<subseteq> {''model''}"
      if "field (JObject oskvs) ''voice'' = Some (JObject ovkvs)" for ovkvs
    proof -
      from that have vm: "(''voice'', JObject ovkvs) \<in> set oskvs"
        by (auto dest: map_of_SomeD)
      have ne: "(''voice'', JObject ovkvs) \<notin> set (extra_keys Passthrough sshape skvs)"
        by (auto simp: extra_keys_def sshape_def)
      from z_parse_object_origin [OF so [unfolded oskvs] vm] ne obtain ks where
        ks: "ks \<in> set sshape" "fst ks = ''voice''"
            "snd (z_parse (snd ks) (([] @ [Key ''settings'']) @ [Key ''voice''])
                   (get_prop skvs ''voice'')) = OK (JObject ovkvs)"
        by blast
      from ks(1,2) have "snd ks = ZodOptional (ZodObject vshape Strip)"
        by (auto simp: sshape_def)
      with ks(3) have vp: "snd (z_parse (ZodOptional (ZodObject vshape Strip))
                   (([] @ [Key ''settings'']) @ [Key ''voice''])
                   (get_prop skvs ''voice'')) = OK (JObject ovkvs)" by simp
      have "\<exists>vkvs. get_prop skvs ''voice'' = JObject vkvs"
      proof (cases "get_prop skvs ''voice''")
        case (JObject vkvs)
        then show ?thesis by blast
      qed (use vp in simp_all)
      then obtain vkvs where vk: "get_prop skvs ''voice'' = JObject vkvs" ..
      from vp [unfolded vk]
      have "snd (z_parse (ZodObject vshape Strip) (([] @ [Key ''settings'']) @ [Key ''voice''])
               (JObject vkvs)) = OK (JObject ovkvs)" by simp
      from z_parse_object_OK [OF this]
      have "fst ` set ovkvs \<subseteq> fst ` set vshape \<union> fst ` set (extra_keys Strip vshape vkvs)"
        by auto
      then show ?thesis by (simp add: extra_keys_def vshape_def)
    qed
    from f p vo show ?thesis by blast
  qed
  with kvs okvs keys show ?thesis unfolding shape_def by blast
qed

theorem undeclared_keys_stripped_settings_own_keys_kept_witness:
  "validate doc_voice_extra = Inr validated_voice_extra \<and>
   field doc_voice_extra ''nickname'' = Some (JString ''B'') \<and>
   field validated_voice_extra ''nickname'' = None \<and>
   (\<exists>oskvs. field validated_voice_extra ''settings'' = Some (JObject oskvs) \<and>
            (''model'', JString ''gpt-4'') \<in> set oskvs \<and>
            (\<exists>ovkvs. field (JObject oskvs) ''voice'' = Some (JObject ovkvs) \<and>
                     fst ` set ovkvs \<subseteq> {''model''}))"
proof -
  let ?skvs = "[(''model'', JString ''gpt-4''),
                (''voice'', JObject [(''model'', JString ''v''), (''speed'', JNumber 1)])]
               :: (string \<times> int jsval) list"
  have v: "validate doc_voice_extra = Inr validated_voice_extra" by code_simp
  have n: "field doc_voice_extra ''nickname'' = Some (JString ''B'')" by code_simp
  have s: "field doc_voice_extra ''settings'' = Some (JObject ?skvs)" by code_simp
  from undeclared_keys_stripped_settings_own_keys_kept [OF v] obtain kvs where "\<exists>okvs. doc_voice_extra = JObject kvs \<and>
      validated_voice_extra = JObject okvs \<and>
      fst ` set okvs \<subseteq> fst ` set (shape_of characterSchema) \<and>
      (\<forall>skvs. field doc_voice_extra ''settings'' = Some (JObject skvs) \<longrightarrow>
              (\<exists>oskvs. field validated_voice_extra ''settings'' = Some (JObject oskvs) \<and>
                 (\<forall>kv \<in> set skvs. fst kv \<notin> {''secrets'', ''voice'', ''__proto__''} \<longrightarrow>
                      kv \<in> set oskvs) \<and>
                 (\<forall>ovkvs. field (JObject oskvs) ''voice'' = Some (JObject ovkvs) \<longrightarrow>
                      fst ` set ovkvs \<subseteq> {''model''})))" ..
  then obtain okvs where all: "doc_voice_extra = JObject kvs \<and>
      validated_voice_extra = JObject okvs \<and>
      fst ` set okvs \<subseteq> fst ` set (shape_of characterSchema) \<and>
      (\<forall>skvs. field doc_voice_extra ''settings'' = Some (JObject skvs) \<longrightarrow>
              (\<exists>oskvs. field validated_voice_extra ''settings'' = Some (JObject oskvs) \<and>
                 (\<forall>kv \<in> set skvs. fst kv \<notin> {''secrets'', ''voice'', ''__proto__''} \<longrightarrow>
                      kv \<in> set oskvs) \<and>
                 (\<forall>ovkvs. field (JObject oskvs) ''voice'' = Some (JObject ovkvs) \<longrightarrow>
                      fst ` set ovkvs \<subseteq> {''model''})))" ..
  from all have o: "validated_voice_extra = JObject okvs"
    by (rule conjunct2 [THEN conjunct1])
  from all have k: "fst ` set okvs \<subseteq> fst ` set (shape_of characterSchema)"
    by (rule conjunct2 [THEN conjunct2, THEN conjunct1])
  from all have p: "\<forall>skvs. field doc_voice_extra ''settings'' = Some (JObject skvs) \<longrightarrow>
              (\<exists>oskvs. field validated_voice_extra ''settings'' = Some (JObject oskvs) \<and>
                 (\<forall>kv \<in> set skvs. fst kv \<notin> {''secrets'', ''voice'', ''__proto__''} \<longrightarrow>
                      kv \<in> set oskvs) \<and>
                 (\<forall>ovkvs. field (JObject oskvs) ''voice'' = Some (JObject ovkvs) \<longrightarrow>
                      fst ` set ovkvs \<subseteq> {''model''}))"
    by (rule conjunct2 [THEN conjunct2, THEN conjunct2])
  have "''nickname'' \<notin> fst ` set (shape_of characterSchema)"
    by (simp add: characterSchema_def z_object_def)
  with k have "''nickname'' \<notin> fst ` set okvs" by (rule contra_subsetD)
  then have a: "field validated_voice_extra ''nickname'' = None"
    unfolding o by (simp add: map_of_eq_None_iff)
  from p [rule_format, OF s] obtain oskvs where
    fev: "field validated_voice_extra ''settings'' = Some (JObject oskvs) \<and>
          (\<forall>kv \<in> set ?skvs. fst kv \<notin> {''secrets'', ''voice'', ''__proto__''} \<longrightarrow>
              kv \<in> set oskvs) \<and>
          (\<forall>ovkvs. field (JObject oskvs) ''voice'' = Some (JObject ovkvs) \<longrightarrow>
                      fst ` set ovkvs \<subseteq> {''model''})" ..
  from fev have f: "field validated_voice_extra ''settings'' = Some (JObject oskvs)"
    by (rule conjunct1)
  from fev have e: "\<forall>kv \<in> set ?skvs. fst kv \<notin> {''secrets'', ''voice'', ''__proto__''} \<longrightarrow>
              kv \<in> set oskvs"
    by (rule conjunct2 [THEN conjunct1])
  from fev have vo: "\<forall>ovkvs. field (JObject oskvs) ''voice'' = Some (JObject ovkvs) \<longrightarrow>
                      fst ` set ovkvs \<subseteq> {''model''}"
    by (rule conjunct2 [THEN conjunct2])
  from e have md: "(''model'', JString ''gpt-4'') \<in> set oskvs" by simp
  have fs: "field validated_voice_extra ''settings'' =
          Some (JObject [(''voice'', JObject [(''model'', JString ''v'')]),
                         (''model'', JString ''gpt-4'')])" by code_simp
  from f [symmetric] fs
  have "Some (JObject oskvs) =
          Some (JObject [(''voice'', JObject [(''model'', JString ''v'' :: int jsval)]),
                         (''model'', JString ''gpt-4'')])" by (rule trans)
  then have os: "oskvs = [(''voice'', JObject [(''model'', JString ''v'')]),
                         (''model'', JString ''gpt-4'')]"
    by (simp only: option.inject jsval.inject)
  have "field (JObject [(''voice'', JObject [(''model'', JString ''v'' :: int jsval)]),
                         (''model'', JString ''gpt-4'')]) ''voice'' =
          Some (JObject [(''model'', JString ''v'')])" by code_simp
  then have fv: "field (JObject oskvs) ''voice'' = Some (JObject [(''model'', JString ''v'')])"
    by (simp only: os)
  from vo [rule_format, OF fv]
  have sub: "fst ` set [(''model'', JString ''v'' :: int jsval)] \<subseteq> {''model''}" .
  have x: "\<exists>ovkvs. field (JObject oskvs) ''voice'' = Some (JObject ovkvs) \<and>
                     fst ` set ovkvs \<subseteq> {''model''}"
    by (rule exI [of _ "[(''model'', JString ''v'')]"]) (rule conjI [OF fv sub])
  have y: "\<exists>oskvs. field validated_voice_extra ''settings'' = Some (JObject oskvs) \<and>
            (''model'', JString ''gpt-4'') \<in> set oskvs \<and>
            (\<exists>ovkvs. field (JObject oskvs) ''voice'' = Some (JObject ovkvs) \<and>
                     fst ` set ovkvs \<subseteq> {''model''})"
    by (rule exI [of _ oskvs]) (rule conjI [OF f conjI [OF md x]])
  show ?thesis
    by (rule conjI [OF v conjI [OF n conjI [OF a y]]])
qed

section \<open>Validation: rejected documents\<close>



text \<open>
  C9: for every JSON value that the Validator rejects and every error it returns, there
  is a path of keys and indices that leads from the root of the input, along the nesting
  that the schema describes and with every index inside its list, to a place whose rule
  the value found there violates; the error's path string is the keys and the decimal
  indices of that path joined by \<^verbatim>\<open>.\<close>, and its message and code are those of that
  violation. A missing \<^verbatim>\<open>text\<close> in the thirteenth turn of the second example has the path
  \<^verbatim>\<open>messageExamples.1.12.content.text\<close>.
\<close>

theorem error_path_locates_violation:
  assumes "is_json v" and "validate v = Inl errs" and "e \<in> set errs"
  shows "\<exists>q s i. reaches characterSchema v q \<and> schema_at characterSchema q = Some s \<and>
           i \<in> set (own_issues s q (locate v q)) \<and>
           e = \<lparr>err_path = dotted_path q, err_message = issue_message i,
                err_code = issue_code i\<rparr>"
proof -
  from assms(2) have "errs = map spec_error (fst (z_parse characterSchema [] v))"
    by (simp add: validate_Inl_iff formatZodError_spec)
  with assms(3) obtain i where i: "i \<in> set (fst (z_parse characterSchema [] v))"
    and e: "e = spec_error i" by auto
  from assms(1) have "is_undefined v \<or> is_json v" by simp
  from issue_located [OF wf_characterSchema this i] obtain q s where
    q: "issue_path i = q" "reaches characterSchema v q" "schema_at characterSchema q = Some s"
       "i \<in> set (own_issues s q (locate v q))" by auto
  from e q(1) have "e = \<lparr>err_path = dotted_path q, err_message = issue_message i,
                err_code = issue_code i\<rparr>"
    by (simp add: spec_error_def)
  with q show ?thesis by blast
qed

theorem error_path_locates_violation_witness:
  "is_json doc_deep_missing_text \<and>
   validate doc_deep_missing_text =
     Inl [\<lparr>err_path = ''messageExamples.1.12.content.text'', err_message = ''Required'',
            err_code = ''invalid_type''\<rparr>] \<and>
   (\<exists>q s i. reaches characterSchema doc_deep_missing_text q \<and>
        schema_at characterSchema q = Some s \<and>
        i \<in> set (own_issues s q (locate doc_deep_missing_text q)) \<and>
        \<lparr>err_path = ''messageExamples.1.12.content.text'', err_message = ''Required'',
            err_code = ''invalid_type''\<rparr> =
        \<lparr>err_path = dotted_path q, err_message = issue_message i, err_code = issue_code i\<rparr>) \<and>
   reaches characterSchema doc_deep_missing_text
     [Key ''messageExamples'', Idx 1, Idx 12, Key ''content'', Key ''text''] \<and>
   schema_at characterSchema
     [Key ''messageExamples'', Idx 1, Idx 12, Key ''content'', Key ''text''] = Some z_string \<and>
   locate doc_deep_missing_text
     [Key ''messageExamples'', Idx 1, Idx 12, Key ''content'', Key ''text''] = JUndefined \<and>
   dotted_path [Key ''messageExamples'', Idx 1, Idx 12, Key ''content'', Key ''text'']
     = ''messageExamples.1.12.content.text''"
proof -
  let ?e = "\<lparr>err_path = ''messageExamples.1.12.content.text'', err_message = ''Required'',
            err_code = ''invalid_type''\<rparr>"
  let ?q = "[Key ''messageExamples'', Idx 1, Idx 12, Key ''content'', Key ''text'']"
  have j: "is_json doc_deep_missing_text" by code_simp
  have v: "validate doc_deep_missing_text = Inl [?e]" by code_simp
  have m: "?e \<in> set [?e]" by simp
  have a: "reaches characterSchema doc_deep_missing_text ?q" by code_simp
  have b: "schema_at characterSchema ?q = Some z_string" by code_simp
  have c: "locate doc_deep_missing_text ?q = JUndefined" by code_simp
  have d: "dotted_path ?q = ''messageExamples.1.12.content.text''" by code_simp
  from error_path_locates_violation [OF j v m]
  have e: "\<exists>q s i. reaches characterSchema doc_deep_missing_text q \<and>
        schema_at characterSchema q = Some s \<and>
        i \<in> set (own_issues s q (locate doc_deep_missing_text q)) \<and>
        ?e = \<lparr>err_path = dotted_path q, err_message = issue_message i,
               err_code = issue_code i\<rparr>" .
  show ?thesis
    by (rule conjI [OF j conjI [OF v conjI [OF e conjI [OF a conjI [OF b conjI [OF c d]]]]]])
qed

end
